theory Spec2Isabelle
  imports Main "HOL-Library.Word" "HOL-Library.Sublist"
begin

section \<open>Python values used by \<^verbatim>\<open>werkzeug/asgi.py\<close>\<close>

text \<open>
  A Python \<^verbatim>\<open>str\<close> is a list of Unicode code points, a \<^verbatim>\<open>bytes\<close> object a list of
  8-bit words. \<open>str_of\<close> and \<open>bytes_of\<close> write the literals of the source.
\<close>

type_synonym pystr = "nat list"
type_synonym bytes = "8 word list"

definition str_of :: "string \<Rightarrow> pystr" where
  "str_of s = map of_char s"

definition bytes_of :: "string \<Rightarrow> bytes" where
  "bytes_of s = map of_char s"

datatype error = TypeError | KeyError | AttributeError | NameError | UnicodeEncodeError

text \<open>
  The result of a call: it returns a value, raises, or never returns (an \<^verbatim>\<open>await\<close> on a
  receiver that has no message left). The second component is the object's state when
  the call is left.
\<close>

datatype ('a, 's) outcome = Returned 'a 's | Raised error 's | Hang

text \<open>\<^verbatim>\<open>xs[i:j]\<close>, negative indices counting from the end, both clipped to the length.\<close>

definition py_slice :: "'a list \<Rightarrow> int \<Rightarrow> int \<Rightarrow> 'a list" where
  "py_slice xs i j =
     (let len = int (length xs);
          a = (if i < 0 then max (len + i) 0 else min i len);
          b = (if j < 0 then max (len + j) 0 else min j len)
      in take (nat (b - a)) (drop (nat a) xs))"

section \<open>SynchronizedInputStream\<close>

text \<open>
  An ASGI event is a dict with a \<^verbatim>\<open>'type'\<close> and the optional keys \<^verbatim>\<open>'body'\<close> and
  \<^verbatim>\<open>'more_body'\<close>.
\<close>

record event =
  ev_type :: pystr
  ev_body :: "bytes option"
  ev_more_body :: "bool option"

text \<open>
  The stream object. \<open>receiver\<close> is the list of events the awaitable will deliver, in
  order; awaiting it when the list is empty never completes. \<open>buffer\<close> is \<open>None\<close> when the
  attribute holds Python's \<^verbatim>\<open>None\<close>. The \<^verbatim>\<open>loop\<close> attribute only says where the coroutine
  runs and is left out: \<^verbatim>\<open>run_coroutine_threadsafe(...).result()\<close> is a plain call here.
\<close>

record stream =
  receiver :: "event list"
  bufp :: int
  buffer :: "bytes option"
  exhausted :: bool
  ended :: bool

definition init_stream :: "event list \<Rightarrow> stream" where
  "init_stream evs =
     \<lparr>receiver = evs, bufp = 0, buffer = Some [], exhausted = False, ended = False\<rparr>"

text \<open>
  \<^verbatim>\<open>SynchronizedInputStream._read\<close> (lines 21-30). A type that is neither
  \<^verbatim>\<open>'http.disconnect'\<close> nor \<^verbatim>\<open>'http.request'\<close> falls off the end of the function, which
  returns \<^verbatim>\<open>None\<close>.
\<close>

definition u_read :: "stream \<Rightarrow> (bytes option, stream) outcome" where
  "u_read s =
     (if ended s then Returned (Some []) s
      else case receiver s of
        [] \<Rightarrow> Hang
      | ev # rest \<Rightarrow>
          (let s1 = s\<lparr>receiver := rest\<rparr> in
           if ev_type ev = str_of ''http.disconnect'' then
             Returned (Some []) (s1\<lparr>ended := True\<rparr>)
           else if ev_type ev = str_of ''http.request'' then
             Returned (Some (case ev_body ev of None \<Rightarrow> [] | Some b \<Rightarrow> b))
               (s1\<lparr>ended := \<not> (case ev_more_body ev of None \<Rightarrow> False | Some m \<Rightarrow> m)\<rparr>)
           else Returned None s1))"

lemma u_read_receiver_less:
  "u_read s = Returned (Some b) s1 \<Longrightarrow> b \<noteq> [] \<Longrightarrow> length (receiver s1) < length (receiver s)"
  by (auto simp: u_read_def Let_def split: if_splits list.splits)

text \<open>
  The \<^verbatim>\<open>while True\<close> loop of \<^verbatim>\<open>read\<close> (lines 47-56). \<^verbatim>\<open>len(None)\<close> raises
  \<^verbatim>\<open>TypeError\<close>, after the assignment to \<^verbatim>\<open>self.buffer\<close>.
\<close>

function read_loop :: "int \<Rightarrow> bytes \<Rightarrow> stream \<Rightarrow> (bytes, stream) outcome" where
  "read_loop n rv s =
     (case u_read s of
        Hang \<Rightarrow> Hang
      | Raised e s1 \<Rightarrow> Raised e s1
      | Returned v s1 \<Rightarrow>
          (case v of
             None \<Rightarrow> Raised TypeError (s1\<lparr>buffer := None\<rparr>)
           | Some b \<Rightarrow>
               if length b = 0 then Returned rv (s1\<lparr>buffer := Some b, exhausted := True\<rparr>)
               else
                 (let s3 = s1\<lparr>buffer := Some b, bufp := n - int (length rv)\<rparr>;
                      rv' = rv @ py_slice b 0 (n - int (length rv))
                  in if int (length rv') = n then Returned rv' s3
                     else read_loop n rv' s3)))"
  by pat_completeness auto
termination
  by (relation "measure (\<lambda>(n, rv, s). length (receiver s))")
     (auto dest: u_read_receiver_less)

declare read_loop.simps [simp del]

text \<open>\<^verbatim>\<open>read(n)\<close> for \<^verbatim>\<open>n != -1\<close> (lines 41-57).\<close>

definition read_n :: "int \<Rightarrow> stream \<Rightarrow> (bytes, stream) outcome" where
  "read_n n s =
     (if n = 0 \<or> exhausted s then Returned [] s
      else case buffer s of
        None \<Rightarrow> Raised TypeError s
      | Some b \<Rightarrow>
          (let rv = py_slice b (bufp s) (bufp s + n) in
           if int (length rv) = n then Returned rv (s\<lparr>bufp := bufp s + n\<rparr>)
           else read_loop n rv s))"

text \<open>One unfolding of the loop, by what \<^verbatim>\<open>_read\<close> gave.\<close>

lemma read_loop_Hang: "u_read s = Hang \<Longrightarrow> read_loop n rv s = Hang"
  by (simp add: read_loop.simps[of n rv s])

lemma read_loop_None:
  "u_read s = Returned None s1 \<Longrightarrow> read_loop n rv s = Raised TypeError (s1\<lparr>buffer := None\<rparr>)"
  by (simp add: read_loop.simps[of n rv s])

lemma read_loop_empty:
  "u_read s = Returned (Some []) s1 \<Longrightarrow>
     read_loop n rv s = Returned rv (s1\<lparr>buffer := Some [], exhausted := True\<rparr>)"
  by (simp add: read_loop.simps[of n rv s])

lemma read_loop_full:
  "u_read s = Returned (Some b) s1 \<Longrightarrow> b \<noteq> [] \<Longrightarrow>
   int (length (rv @ py_slice b 0 (n - int (length rv)))) = n \<Longrightarrow>
     read_loop n rv s = Returned (rv @ py_slice b 0 (n - int (length rv)))
       (s1\<lparr>buffer := Some b, bufp := n - int (length rv)\<rparr>)"
  by (simp add: read_loop.simps[of n rv s] Let_def)

lemma read_loop_more:
  "u_read s = Returned (Some b) s1 \<Longrightarrow> b \<noteq> [] \<Longrightarrow>
   int (length (rv @ py_slice b 0 (n - int (length rv)))) \<noteq> n \<Longrightarrow>
     read_loop n rv s = read_loop n (rv @ py_slice b 0 (n - int (length rv)))
       (s1\<lparr>buffer := Some b, bufp := n - int (length rv)\<rparr>)"
  by (simp add: read_loop.simps[of n rv s] Let_def)

lemma u_read_not_Raised: "u_read s \<noteq> Raised e s1"
  by (simp add: u_read_def Let_def split: list.splits)

text \<open>
  An induction rule for the loop: a property of its result holds when it holds in each
  of the four ways an iteration ends and is kept by an iteration that goes on.
\<close>

lemma read_loop_induct [consumes 1, case_names Hang None Empty Full More]:
  assumes "read_loop n rv s = r"
    and "\<And>n rv s. u_read s = Hang \<Longrightarrow> P n rv s Hang"
    and "\<And>n rv s s1. u_read s = Returned None s1 \<Longrightarrow>
           P n rv s (Raised TypeError (s1\<lparr>buffer := None\<rparr>))"
    and "\<And>n rv s s1. u_read s = Returned (Some []) s1 \<Longrightarrow>
           P n rv s (Returned rv (s1\<lparr>buffer := Some [], exhausted := True\<rparr>))"
    and "\<And>n rv s b s1. u_read s = Returned (Some b) s1 \<Longrightarrow> b \<noteq> [] \<Longrightarrow>
           int (length (rv @ py_slice b 0 (n - int (length rv)))) = n \<Longrightarrow>
           P n rv s (Returned (rv @ py_slice b 0 (n - int (length rv)))
             (s1\<lparr>buffer := Some b, bufp := n - int (length rv)\<rparr>))"
    and "\<And>n rv s b s1 r. u_read s = Returned (Some b) s1 \<Longrightarrow> b \<noteq> [] \<Longrightarrow>
           int (length (rv @ py_slice b 0 (n - int (length rv)))) \<noteq> n \<Longrightarrow>
           P n (rv @ py_slice b 0 (n - int (length rv)))
             (s1\<lparr>buffer := Some b, bufp := n - int (length rv)\<rparr>) r \<Longrightarrow>
           P n rv s r"
  shows "P n rv s r"
  using assms(1)
proof (induction n rv s arbitrary: r rule: read_loop.induct)
  case (1 n rv s)
  show ?case
  proof (cases "u_read s")
    case Hang
    with "1.prems" assms(2) show ?thesis by (simp add: read_loop_Hang)
  next
    case (Raised e s1)
    then show ?thesis by (simp add: u_read_not_Raised)
  next
    case (Returned x s1)
    show ?thesis
    proof (cases x)
      case None
      with Returned "1.prems" assms(3) show ?thesis by (auto simp: read_loop_None)
    next
      case (Some b)
      show ?thesis
      proof (cases "b = []")
        case True
        with Returned Some "1.prems" assms(4) show ?thesis by (auto simp: read_loop_empty)
      next
        case False
        let ?s3 = "s1\<lparr>buffer := Some b, bufp := n - int (length rv)\<rparr>"
        let ?rv = "rv @ py_slice b 0 (n - int (length rv))"
        show ?thesis
        proof (cases "int (length ?rv) = n")
          case True
          from read_loop_full[OF Returned[unfolded Some] False True] "1.prems"
            assms(5)[OF Returned[unfolded Some] False True]
          show ?thesis by simp
        next
          case F2: False
          from read_loop_more[OF Returned[unfolded Some] False F2] "1.prems"
          have "read_loop n ?rv ?s3 = r" by simp
          from "1.IH"[OF Returned Some _ refl refl F2 this] False
          have "P n ?rv ?s3 r" by simp
          from assms(6)[OF Returned[unfolded Some] False F2 this]
          show ?thesis .
        qed
      qed
    qed
  qed
qed

lemma read_loop_progress_aux:
  "read_loop n rv s = r \<Longrightarrow>
     (\<forall>v s'. r = Returned v s' \<longrightarrow>
        exhausted s' \<or> length (receiver s') < length (receiver s))"
proof (induction rule: read_loop_induct)
  case (Full n rv s b s1)
  from u_read_receiver_less[OF Full(1,2)] show ?case by simp
next
  case (More n rv s b s1 r)
  from u_read_receiver_less[OF More(1,2)] More(4) show ?case by auto
qed auto

lemma read_loop_progress:
  "read_loop n rv s = Returned v s' \<Longrightarrow>
     exhausted s' \<or> length (receiver s') < length (receiver s)"
  using read_loop_progress_aux by blast

text \<open>How far the cursor is from the end of the buffer: the measure of the outer loop.\<close>

definition cursor_measure :: "stream \<Rightarrow> nat" where
  "cursor_measure s = (case buffer s of None \<Rightarrow> 0
     | Some b \<Rightarrow> if 0 \<le> bufp s then length b - nat (bufp s) else length b + nat (- bufp s))"

lemma read_n_progress:
  assumes "read_n 8192 s = Returned v s'" "v \<noteq> []"
  shows "(\<not> exhausted s \<and> exhausted s') \<or>
         (exhausted s' = exhausted s \<and> length (receiver s') < length (receiver s)) \<or>
         (exhausted s' = exhausted s \<and> receiver s' = receiver s \<and> cursor_measure s' < cursor_measure s)"
proof -
  from assms have ne: "\<not> exhausted s" by (auto simp: read_n_def)
  from assms ne obtain b where b: "buffer s = Some b"
    by (cases "buffer s") (auto simp: read_n_def)
  let ?rv = "py_slice b (bufp s) (bufp s + 8192)"
  show ?thesis
  proof (cases "int (length ?rv) = 8192")
    case True
    with assms ne b have s': "s' = s\<lparr>bufp := bufp s + 8192\<rparr>"
      by (auto simp: read_n_def Let_def)
    from True have "cursor_measure s' < cursor_measure s"
      unfolding s' cursor_measure_def using b
      by (auto simp: py_slice_def Let_def split: if_splits)
    with s' show ?thesis by simp
  next
    case False
    with assms ne b have "read_loop 8192 ?rv s = Returned v s'"
      by (auto simp: read_n_def Let_def)
    from read_loop_progress[OF this] ne show ?thesis by auto
  qed
qed

text \<open>
  \<^verbatim>\<open>read(-1)\<close> (lines 33-40): \<^verbatim>\<open>self.read(8192)\<close> until it returns nothing. The inner
  call has \<^verbatim>\<open>n = 8192\<close>, so it runs lines 41-57.
\<close>

function read_all :: "bytes \<Rightarrow> stream \<Rightarrow> (bytes, stream) outcome" where
  "read_all rv s =
     (case read_n 8192 s of
        Hang \<Rightarrow> Hang
      | Raised e s' \<Rightarrow> Raised e s'
      | Returned v s' \<Rightarrow>
          if length v = 0 then Returned rv s' else read_all (rv @ v) s')"
  by pat_completeness auto
termination
proof (relation "inv_image (less_than <*lex*> less_than <*lex*> less_than)
         (\<lambda>(rv, s). ((if exhausted s then 0 else 1::nat), length (receiver s), cursor_measure s))")
  show "wf (inv_image (less_than <*lex*> less_than <*lex*> less_than)
         (\<lambda>(rv, s). ((if exhausted s then 0 else 1::nat), length (receiver s), cursor_measure s)))"
    by (intro wf_inv_image wf_lex_prod wf_less_than)
next
  fix rv s v s'
  assume "read_n 8192 s = Returned v s'" "length v \<noteq> 0"
  then have "v \<noteq> []" by simp
  from read_n_progress[OF \<open>read_n 8192 s = Returned v s'\<close> this]
  show "((rv @ v, s'), (rv, s)) \<in> inv_image (less_than <*lex*> less_than <*lex*> less_than)
         (\<lambda>(rv, s). ((if exhausted s then 0 else 1::nat), length (receiver s), cursor_measure s))"
    by auto
qed

declare read_all.simps [simp del]

text \<open>\<^verbatim>\<open>SynchronizedInputStream.read\<close> (lines 32-57).\<close>

definition read :: "int \<Rightarrow> stream \<Rightarrow> (bytes, stream) outcome" where
  "read n s = (if n = - 1 then read_all [] s else read_n n s)"

subsection \<open>Callers and events\<close>

text \<open>A caller that issues the reads \<open>ns\<close> one after the other and stops at the first
  that raises or never returns.\<close>

fun reads :: "int list \<Rightarrow> stream \<Rightarrow> (bytes list, stream) outcome" where
  "reads [] s = Returned [] s"
| "reads (n # ns) s =
     (case read n s of
        Hang \<Rightarrow> Hang
      | Raised e s' \<Rightarrow> Raised e s'
      | Returned v s' \<Rightarrow>
          (case reads ns s' of
             Returned vs s'' \<Rightarrow> Returned (v # vs) s''
           | Raised e s'' \<Rightarrow> Raised e s''
           | Hang \<Rightarrow> Hang))"

text \<open>The events a server sends: a body chunk with its \<^verbatim>\<open>more_body\<close> flag, a disconnect.\<close>

definition http_request :: "bytes \<Rightarrow> bool \<Rightarrow> event" where
  "http_request b m =
     \<lparr>ev_type = str_of ''http.request'', ev_body = Some b, ev_more_body = Some m\<rparr>"

definition http_disconnect :: event where
  "http_disconnect = \<lparr>ev_type = str_of ''http.disconnect'', ev_body = None, ev_more_body = None\<rparr>"

lemmas stream_eval = read_def read_n_def read_loop.simps read_all.simps u_read_def
  init_stream_def py_slice_def str_of_def bytes_of_def Let_def http_request_def
  http_disconnect_def

subsection \<open>Predicates of the statements about the stream\<close>

text \<open>
  The call \<open>r\<close> made in state \<open>s\<close> took no event from the receiver and did not wait for
  one, and \<open>ended\<close> is set when it is left.
\<close>

definition quiet :: "stream \<Rightarrow> ('a, stream) outcome \<Rightarrow> bool" where
  "quiet s r =
     (case r of
        Returned v s' \<Rightarrow> receiver s' = receiver s \<and> ended s'
      | Raised e s' \<Rightarrow> receiver s' = receiver s \<and> ended s'
      | Hang \<Rightarrow> False)"

text \<open>A message whose type is neither of the two that \<^verbatim>\<open>_read\<close> knows.\<close>

definition unexpected :: "event \<Rightarrow> bool" where
  "unexpected ev =
     (ev_type ev \<noteq> str_of ''http.disconnect'' \<and> ev_type ev \<noteq> str_of ''http.request'')"

text \<open>
  What a call may have done with the message \<open>ev\<close>, which the messages \<open>post\<close> follow: it
  left \<open>ev\<close> in the receiver, or it raised \<^verbatim>\<open>TypeError\<close> having taken \<open>ev\<close>, with the buffer
  set to \<^verbatim>\<open>None\<close>. It did not return after taking \<open>ev\<close> and it did not wait.
\<close>

definition pending_or_raised :: "event \<Rightarrow> event list \<Rightarrow> ('a, stream) outcome \<Rightarrow> bool" where
  "pending_or_raised ev post r =
     (case r of
        Returned v s' \<Rightarrow> suffix (ev # post) (receiver s')
      | Raised e s' \<Rightarrow>
          suffix (ev # post) (receiver s') \<or>
          (e = TypeError \<and> receiver s' = post \<and> buffer s' = None)
      | Hang \<Rightarrow> False)"

text \<open>
  The events of a request body: \<^verbatim>\<open>'http.request'\<close> messages of which every one but the last
  has \<^verbatim>\<open>more_body\<close> true and a body that is not empty, and the last has \<^verbatim>\<open>more_body\<close> false or
  absent. \<open>payload\<close> is the bytes they carry.
\<close>

fun body_events :: "event list \<Rightarrow> bool" where
  "body_events [] = False"
| "body_events [ev] = (ev_type ev = str_of ''http.request'' \<and> ev_more_body ev \<noteq> Some True)"
| "body_events (ev # evs) =
     (ev_type ev = str_of ''http.request'' \<and> ev_more_body ev = Some True \<and>
      ev_body ev \<noteq> None \<and> ev_body ev \<noteq> Some [] \<and> body_events evs)"

definition chunk :: "event \<Rightarrow> bytes" where
  "chunk ev = (case ev_body ev of None \<Rightarrow> [] | Some b \<Rightarrow> b)"

definition payload :: "event list \<Rightarrow> bytes" where
  "payload evs = concat (map chunk evs)"

text \<open>
  The bytes a stream has still to hand out, and the invariant of a stream that reads a
  body: the cursor is not negative, the receiver holds the rest of the body, and an
  exhausted stream has nothing left.
\<close>

definition pending :: "stream \<Rightarrow> bytes" where
  "pending s =
     (case buffer s of None \<Rightarrow> [] | Some b \<Rightarrow> drop (nat (bufp s)) b) @ payload (receiver s)"

definition shape :: "stream \<Rightarrow> bool" where
  "shape s = (0 \<le> bufp s \<and> (if ended s then receiver s = [] else body_events (receiver s)))"

definition stream_inv :: "stream \<Rightarrow> bool" where
  "stream_inv s = (shape s \<and> buffer s \<noteq> None \<and> (exhausted s \<longrightarrow> ended s \<and> pending s = []))"

text \<open>What the loop of \<open>read n\<close> gives when it starts with \<open>rv\<close> on such a stream.\<close>

definition loop_post :: "int \<Rightarrow> bytes \<Rightarrow> stream \<Rightarrow> (bytes, stream) outcome \<Rightarrow> bool" where
  "loop_post n rv s r =
     (\<exists>s'. r = Returned (rv @ take (nat (n - int (length rv))) (payload (receiver s))) s' \<and>
        stream_inv s' \<and> pending s' = drop (nat (n - int (length rv))) (payload (receiver s)))"

section \<open>asgi_scope_to_environ\<close>

text \<open>
  The values of the environ dict: a \<^verbatim>\<open>str\<close>, an \<^verbatim>\<open>int\<close> (a port) or \<^verbatim>\<open>None\<close>. The dict is
  a map from keys to values.
\<close>

datatype pyval = Str pystr | IntVal int | NoneVal

type_synonym environ = "pystr \<rightharpoonup> pyval"

text \<open>
  The ASGI scope, a dict: a field is \<open>None\<close> when its key is absent. \<^verbatim>\<open>server\<close> and
  \<^verbatim>\<open>client\<close> are a host and a port.
\<close>

record scope =
  "method" :: "pystr option"
  root_path :: "pystr option"
  path :: "pystr option"
  query_string :: "bytes option"
  server :: "(pystr \<times> int) option"
  client :: "(pystr \<times> int) option"
  scheme :: "pystr option"
  headers :: "(bytes \<times> bytes) list option"

text \<open>
  \<^verbatim>\<open>bytes.decode('iso-8859-1')\<close>: every byte is the code point of its value.
  \<^verbatim>\<open>str.replace('-', '_')\<close>. \<^verbatim>\<open>str.upper()\<close> on the code points below 256, the only ones a
  decoded header name has: the letters of ASCII and of Latin-1, of which the sharp s
  becomes \<^verbatim>\<open>SS\<close> and the micro sign and the y with diaeresis leave Latin-1.
\<close>

definition decode_latin1 :: "bytes \<Rightarrow> pystr" where
  "decode_latin1 b = map unat b"

definition replace_dash :: "pystr \<Rightarrow> pystr" where
  "replace_dash s = map (\<lambda>c. if c = 45 then 95 else c) s"

definition upper_char :: "nat \<Rightarrow> pystr" where
  "upper_char c =
     (if 97 \<le> c \<and> c \<le> 122 then [c - 32]
      else if c = 181 then [924]
      else if c = 223 then [83, 83]
      else if 224 \<le> c \<and> c \<le> 254 \<and> c \<noteq> 247 then [c - 32]
      else if c = 255 then [376]
      else [c])"

definition upper :: "pystr \<Rightarrow> pystr" where
  "upper s = concat (map upper_char s)"

text \<open>The key of a header name (lines 74-76).\<close>

definition wsgi_key_of :: "bytes \<Rightarrow> pystr" where
  "wsgi_key_of k =
     (let wsgi_key = upper (replace_dash (decode_latin1 k)) in
      if wsgi_key \<notin> {str_of ''CONTENT_TYPE'', str_of ''CONTENT_LENGTH''}
      then str_of ''HTTP_'' @ wsgi_key else wsgi_key)"

text \<open>
  The loop over the headers (lines 73-80). \<^verbatim>\<open>+=\<close> on an entry that is not a \<^verbatim>\<open>str\<close> raises
  \<^verbatim>\<open>TypeError\<close>.
\<close>

fun add_headers :: "environ \<Rightarrow> (bytes \<times> bytes) list \<Rightarrow> error + environ" where
  "add_headers environ [] = Inr environ"
| "add_headers environ ((k, v) # hs) =
     (let wsgi_key = wsgi_key_of k in
      case environ wsgi_key of
        None \<Rightarrow> add_headers (environ(wsgi_key \<mapsto> Str (decode_latin1 v))) hs
      | Some (Str old) \<Rightarrow>
          add_headers (environ(wsgi_key \<mapsto> Str (old @ str_of ''; '' @ decode_latin1 v))) hs
      | Some _ \<Rightarrow> Inl TypeError)"

text \<open>
  \<^verbatim>\<open>asgi_scope_to_environ\<close> (lines 60-81). The dict display is evaluated in order:
  \<^verbatim>\<open>scope['method']\<close> and \<^verbatim>\<open>scope['path']\<close> raise \<^verbatim>\<open>KeyError\<close> when the key is absent, and
  \<^verbatim>\<open>scope.get('query_string')\<close> is \<^verbatim>\<open>None\<close> then, which has no \<^verbatim>\<open>decode\<close>.
\<close>

definition asgi_scope_to_environ :: "scope \<Rightarrow> error + environ" where
  "asgi_scope_to_environ scope =
     (case method scope of
        None \<Rightarrow> Inl KeyError
      | Some m \<Rightarrow>
     (case path scope of
        None \<Rightarrow> Inl KeyError
      | Some p \<Rightarrow>
     (case query_string scope of
        None \<Rightarrow> Inl AttributeError
      | Some q \<Rightarrow>
          (let rp = (case root_path scope of None \<Rightarrow> [] | Some r \<Rightarrow> r);
               sv = (case server scope of None \<Rightarrow> (NoneVal, NoneVal)
                     | Some (h, n) \<Rightarrow> (Str h, IntVal n));
               cl = (case client scope of None \<Rightarrow> (NoneVal, NoneVal)
                     | Some (h, n) \<Rightarrow> (Str h, IntVal n));
               environ =
                 [str_of ''REQUEST_METHOD'' \<mapsto> Str m,
                  str_of ''SCRIPT_NAME'' \<mapsto> Str rp,
                  str_of ''PATH_INFO'' \<mapsto> Str (rp @ p),
                  str_of ''QUERY_STRING'' \<mapsto> Str (decode_latin1 q),
                  str_of ''SERVER_NAME'' \<mapsto> fst sv,
                  str_of ''SERVER_PORT'' \<mapsto> snd sv,
                  str_of ''REMOTE_HOST'' \<mapsto> fst cl,
                  str_of ''REMOTE_ADDR'' \<mapsto> fst cl,
                  str_of ''REMOTE_PORT'' \<mapsto> snd cl,
                  str_of ''wsgi.url_scheme'' \<mapsto>
                    Str (case scheme scope of None \<Rightarrow> str_of ''http'' | Some s \<Rightarrow> s)]
           in add_headers environ (case headers scope of None \<Rightarrow> [] | Some hs \<Rightarrow> hs)))))"

text \<open>What the caller finds under the key \<open>k\<close> of the result.\<close>

definition environ_at :: "pystr \<Rightarrow> error + environ \<Rightarrow> error + pyval option" where
  "environ_at k r = (case r of Inl e \<Rightarrow> Inl e | Inr environ \<Rightarrow> Inr (environ k))"

subsection \<open>Functions of the statements about the translator\<close>

text \<open>
  \<^verbatim>\<open>'; '.join(vs)\<close>; the decoded values of the headers whose key is \<open>key\<close>, in the order
  of the list; the keys of the dict display; the headers of a scope.
\<close>

fun join_values :: "pystr list \<Rightarrow> pystr" where
  "join_values [] = []"
| "join_values [v] = v"
| "join_values (v # vs) = v @ str_of ''; '' @ join_values vs"

definition values_of :: "(bytes \<times> bytes) list \<Rightarrow> pystr \<Rightarrow> pystr list" where
  "values_of hs key = map (decode_latin1 \<circ> snd) (filter (\<lambda>h. wsgi_key_of (fst h) = key) hs)"

definition base_keys :: "pystr list" where
  "base_keys = [str_of ''REQUEST_METHOD'', str_of ''SCRIPT_NAME'', str_of ''PATH_INFO'',
     str_of ''QUERY_STRING'', str_of ''SERVER_NAME'', str_of ''SERVER_PORT'',
     str_of ''REMOTE_HOST'', str_of ''REMOTE_ADDR'', str_of ''REMOTE_PORT'',
     str_of ''wsgi.url_scheme'']"

definition header_list :: "scope \<Rightarrow> (bytes \<times> bytes) list" where
  "header_list scope = (case headers scope of None \<Rightarrow> [] | Some hs \<Rightarrow> hs)"

text \<open>
  The entry of a key after the loop, from the entry before it and the values the loop
  adds to it.
\<close>

definition merged :: "pyval option \<Rightarrow> pystr list \<Rightarrow> pyval option" where
  "merged old vs =
     (case vs of
        [] \<Rightarrow> old
      | v # ws \<Rightarrow>
          (case old of
             None \<Rightarrow> Some (Str (join_values (v # ws)))
           | Some (Str x) \<Rightarrow> Some (Str (join_values (x # v # ws)))
           | Some y \<Rightarrow> Some y))"

definition str_or_absent :: "pyval option \<Rightarrow> bool" where
  "str_or_absent x = (case x of None \<Rightarrow> True | Some (Str s) \<Rightarrow> True | Some _ \<Rightarrow> False)"

section \<open>ASGIResponse\<close>

text \<open>A chunk of a response body: text or bytes.\<close>

datatype item = TextItem pystr | BytesItem bytes

text \<open>
  An iterable, by what the code asks of it: whether it has \<^verbatim>\<open>__aiter__\<close> (it is an
  \<^verbatim>\<open>AsyncIterable\<close> and \<^verbatim>\<open>async for\<close> takes it), what \<^verbatim>\<open>len()\<close> gives (\<open>None\<close> when
  \<^verbatim>\<open>len()\<close> raises, as for a generator), and what iterating it yields: items, or an
  exception at the place where the iteration raises.
\<close>

record iterable =
  has_aiter :: bool
  py_len :: "nat option"
  elems :: "(error + item) list"

type_synonym wsgi_list = "(pystr \<times> pystr) list"

text \<open>
  The response object: its body \<^verbatim>\<open>self.response\<close>, \<^verbatim>\<open>self.status_code\<close>, the codec of
  \<^verbatim>\<open>self.charset\<close> as the function \<^verbatim>\<open>item.encode(self.charset)\<close> computes,
  \<^verbatim>\<open>self.direct_passthrough\<close>, and the header list that goes into the start frame.
\<close>

record asgi_response =
  response :: iterable
  status_code :: int
  encode :: "pystr \<Rightarrow> error + bytes"
  direct_passthrough :: bool
  wsgi_headers :: wsgi_list

text \<open>A list or tuple: a sized synchronous iterable.\<close>

definition py_list :: "item list \<Rightarrow> iterable" where
  "py_list xs = \<lparr>has_aiter = False, py_len = Some (length xs), elems = map Inr xs\<rparr>"

text \<open>
  \<^verbatim>\<open>_asyncify\<close> and \<^verbatim>\<open>aiter_encoded\<close> (lines 111-120) are asynchronous generators: they
  have \<^verbatim>\<open>__aiter__\<close> and no \<^verbatim>\<open>len()\<close>.
\<close>

definition asyncify :: "iterable \<Rightarrow> iterable" where
  "asyncify it = \<lparr>has_aiter = True, py_len = None, elems = elems it\<rparr>"

definition encode_item :: "asgi_response \<Rightarrow> error + item \<Rightarrow> error + item" where
  "encode_item self x =
     (case x of
        Inl e \<Rightarrow> Inl e
      | Inr (TextItem t) \<Rightarrow> (case encode self t of Inl e \<Rightarrow> Inl e | Inr b \<Rightarrow> Inr (BytesItem b))
      | Inr (BytesItem b) \<Rightarrow> Inr (BytesItem b))"

definition aiter_encoded :: "asgi_response \<Rightarrow> iterable \<Rightarrow> iterable" where
  "aiter_encoded self it =
     \<lparr>has_aiter = True, py_len = None, elems = map (encode_item self) (elems it)\<rparr>"

text \<open>
  \<^verbatim>\<open>get_app_iter\<close> (lines 122-138). \<open>debug\<close> is Python's \<^verbatim>\<open>__debug__\<close>, true unless the
  interpreter runs with \<^verbatim>\<open>-O\<close>. The name \<^verbatim>\<open>_warn_if_string\<close> called at line 130 is not
  bound in this module (the imports at lines 1-6 do not bring it), so the call raises
  \<^verbatim>\<open>NameError\<close>.
\<close>

definition get_app_iter :: "bool \<Rightarrow> asgi_response \<Rightarrow> environ \<Rightarrow> error + iterable" where
  "get_app_iter debug self environ =
     (let resp = response self; status = status_code self in
      case environ (str_of ''REQUEST_METHOD'') of
        None \<Rightarrow> Inl KeyError
      | Some m \<Rightarrow>
          if m = Str (str_of ''HEAD'') \<or> (100 \<le> status \<and> status < 200) \<or>
             status = 204 \<or> status = 304
          then
            (let it = py_list [] in
             Inr (aiter_encoded self (if \<not> has_aiter it then asyncify it else it)))
          else if direct_passthrough self then
            (if debug then Inl NameError else Inr (response self))
          else
            (let it = response self in
             Inr (aiter_encoded self (if \<not> has_aiter it then asyncify it else it))))"

text \<open>
  Modelled from the spec: \<^verbatim>\<open>get_wsgi_response\<close> of the \<^verbatim>\<open>Response\<close> base class, which is
  not in this file. It gives the effective body of \<^verbatim>\<open>get_app_iter\<close>, the status and the
  header list of the start frame.
\<close>

definition get_wsgi_response ::
  "bool \<Rightarrow> asgi_response \<Rightarrow> environ \<Rightarrow> error + iterable \<times> int \<times> wsgi_list" where
  "get_wsgi_response debug self environ =
     (case get_app_iter debug self environ of
        Inl e \<Rightarrow> Inl e
      | Inr app_iter \<Rightarrow> Inr (app_iter, status_code self, wsgi_headers self))"

text \<open>
  The frames given to \<^verbatim>\<open>sender\<close>: \<^verbatim>\<open>'http.response.start'\<close> with status and headers, and
  \<^verbatim>\<open>'http.response.body'\<close> with the keys \<^verbatim>\<open>'body'\<close> and \<^verbatim>\<open>'more_body'\<close>, each \<open>None\<close> when
  the dict has no such key.
\<close>

datatype frame =
  Start int wsgi_list
| Body "item option" "bool option"

text \<open>
  The \<^verbatim>\<open>async for\<close> loop (lines 153-162) over what the iterator yields, with the counter
  \<open>i\<close> and the frames sent so far. \<^verbatim>\<open>sender\<close> is taken to accept every frame.
\<close>

fun send_items ::
  "nat option \<Rightarrow> nat \<Rightarrow> (error + item) list \<Rightarrow> frame list \<Rightarrow> (unit, frame list) outcome" where
  "send_items l i [] sent = Returned () sent"
| "send_items l i (Inl e # rest) sent = Raised e sent"
| "send_items l i (Inr x # rest) sent =
     send_items l (i + 1) rest
       (sent @ [Body (Some x)
          (case l of None \<Rightarrow> Some True | Some n \<Rightarrow> if i < n then Some True else None)])"

text \<open>
  The coroutine \<^verbatim>\<open>response(receiver, sender)\<close> (lines 143-166). \<^verbatim>\<open>async for\<close> over an
  object without \<^verbatim>\<open>__aiter__\<close> raises \<^verbatim>\<open>TypeError\<close>, after the start frame is sent.
\<close>

definition run_response ::
  "asgi_response \<Rightarrow> iterable \<Rightarrow> wsgi_list \<Rightarrow> (unit, frame list) outcome" where
  "run_response self app_iter hdrs =
     (let sent = [Start (status_code self) hdrs];
          l = py_len app_iter
      in if \<not> has_aiter app_iter then Raised TypeError sent
         else case send_items l 0 (elems app_iter) sent of
           Returned u sent' \<Rightarrow>
             if l = None then Returned () (sent' @ [Body None None]) else Returned () sent'
         | Raised e sent' \<Rightarrow> Raised e sent'
         | Hang \<Rightarrow> Hang)"

text \<open>
  \<^verbatim>\<open>ASGIResponse.__call__\<close> (lines 140-167) and the run of the coroutine it returns: the
  frames sent, and how the run ends.
\<close>

definition asgi_call :: "bool \<Rightarrow> asgi_response \<Rightarrow> scope \<Rightarrow> (unit, frame list) outcome" where
  "asgi_call debug self scope =
     (case asgi_scope_to_environ scope of
        Inl e \<Rightarrow> Raised e []
      | Inr environ \<Rightarrow>
          (case get_wsgi_response debug self environ of
             Inl e \<Rightarrow> Raised e []
           | Inr (app_iter, status, hdrs) \<Rightarrow> run_response self app_iter hdrs))"

subsection \<open>Inputs of the examples\<close>

text \<open>The codec \<^verbatim>\<open>'latin-1'\<close>, and a scope with nothing but method, path and query string.\<close>

definition encode_latin1 :: "pystr \<Rightarrow> error + bytes" where
  "encode_latin1 t = (if list_all (\<lambda>c. c < 256) t then Inr (map of_nat t) else Inl UnicodeEncodeError)"

definition plain_scope :: "pystr \<Rightarrow> scope" where
  "plain_scope m =
     \<lparr>method = Some m, root_path = None, path = Some (str_of ''/''), query_string = Some [],
      server = None, client = None, scheme = None, headers = None\<rparr>"

section \<open>Properties of the input stream\<close>

subsection \<open>Slices with indices that are not negative\<close>

lemma py_slice_from_0: "0 \<le> k \<Longrightarrow> py_slice b 0 k = take (nat k) b"
  by (auto simp: py_slice_def Let_def min_def)

lemma py_slice_nonneg:
  "0 \<le> i \<Longrightarrow> 0 \<le> k \<Longrightarrow> py_slice b i (i + k) = take (nat k) (drop (nat i) b)"
  by (auto simp: py_slice_def Let_def min_def)

subsection \<open>Reads on an exhausted stream\<close>

lemma read_n_exhausted: "exhausted s \<Longrightarrow> read_n n s = Returned [] s"
  by (simp add: read_n_def)

lemma read_all_exhausted: "exhausted s \<Longrightarrow> read_all rv s = Returned rv s"
  by (subst read_all.simps) (simp add: read_n_exhausted)

lemma read_exhausted: "exhausted s \<Longrightarrow> read n s = Returned [] s"
  by (simp add: read_def read_n_exhausted read_all_exhausted)

lemma reads_exhausted:
  "exhausted s \<Longrightarrow> reads ns s = Returned (replicate (length ns) []) s"
  by (induction ns) (simp_all add: read_exhausted)

text \<open>
  C9. Once the \<open>exhausted\<close> flag of the stream is set, \<open>read n\<close> returns the empty bytes
  for every \<open>n\<close> (positive, zero, negative, \<open>-1\<close>), leaves every field of the stream as it
  was and does not raise; so does any sequence \<open>ns\<close> of such reads.
\<close>

theorem exhausted_read_empty:
  "exhausted s \<Longrightarrow>
     read n s = Returned [] s \<and> reads ns s = Returned (replicate (length ns) []) s"
  by (simp add: read_exhausted reads_exhausted)

theorem exhausted_read_empty_witness:
  "read (- 1) (init_stream [http_request (bytes_of ''abcd'') False]) =
     Returned (bytes_of ''abcd'')
       \<lparr>receiver = [], bufp = 8192, buffer = Some [], exhausted = True, ended = True\<rparr> \<and>
   read 7 \<lparr>receiver = [], bufp = 8192, buffer = Some [], exhausted = True, ended = True\<rparr> =
     Returned []
       \<lparr>receiver = [], bufp = 8192, buffer = Some [], exhausted = True, ended = True\<rparr> \<and>
   reads [7, 0, - 1, - 5]
       \<lparr>receiver = [], bufp = 8192, buffer = Some [], exhausted = True, ended = True\<rparr> =
     Returned [[], [], [], []]
       \<lparr>receiver = [], bufp = 8192, buffer = Some [], exhausted = True, ended = True\<rparr>"
proof -
  let ?s = "\<lparr>receiver = [], bufp = 8192, buffer = Some [], exhausted = True, ended = True\<rparr>"
  have "read (- 1) (init_stream [http_request (bytes_of ''abcd'') False]) =
          Returned (bytes_of ''abcd'') ?s"
    by (simp add: stream_eval)
  moreover have "exhausted ?s" by simp
  from exhausted_read_empty[OF this, of 7 "[7, 0, - 1, - 5]"]
  have "read 7 ?s = Returned [] ?s \<and> reads [7, 0, - 1, - 5] ?s = Returned [[], [], [], []] ?s"
    by (simp del: reads.simps)
  ultimately show ?thesis by blast
qed

subsection \<open>Short reads\<close>

lemma read_loop_full_or_exhausted_aux:
  "read_loop n rv s = r \<Longrightarrow>
     (\<forall>v s'. r = Returned v s' \<longrightarrow> int (length v) = n \<or> exhausted s')"
  by (induction rule: read_loop_induct) auto

lemma read_loop_full_or_exhausted:
  "read_loop n rv s = Returned v s' \<Longrightarrow> int (length v) = n \<or> exhausted s'"
  using read_loop_full_or_exhausted_aux by blast

lemma read_n_full_or_exhausted:
  "read_n n s = Returned v s' \<Longrightarrow> n \<noteq> 0 \<Longrightarrow> int (length v) = n \<or> exhausted s'"
  by (auto simp: read_n_def Let_def split: if_splits option.splits
           dest!: read_loop_full_or_exhausted)

text \<open>
  C10. For \<open>n > 0\<close>, a \<open>read n\<close> that returns fewer than \<open>n\<close> bytes leaves the \<open>exhausted\<close>
  flag set, and every later read, whatever its argument, returns the empty bytes: a short
  read is the last read of the stream that is not empty.
\<close>

theorem short_read_is_last:
  "0 < n \<Longrightarrow> read n s = Returned rv s' \<Longrightarrow> int (length rv) < n \<Longrightarrow>
     exhausted s' \<and> (\<forall>m. read m s' = Returned [] s')"
proof -
  assume n: "0 < n" and r: "read n s = Returned rv s'" and short: "int (length rv) < n"
  from n r have "read_n n s = Returned rv s'" by (simp add: read_def)
  from read_n_full_or_exhausted[OF this] n short have "exhausted s'" by auto
  then show ?thesis by (simp add: read_exhausted)
qed

theorem short_read_is_last_witness:
  "read 3 (init_stream [http_request (bytes_of ''ab'') False]) =
     Returned (bytes_of ''ab'')
       \<lparr>receiver = [], bufp = 3, buffer = Some [], exhausted = True, ended = True\<rparr> \<and>
   int (length (bytes_of ''ab'')) < 3 \<and>
   exhausted \<lparr>receiver = [], bufp = 3, buffer = Some [], exhausted = True, ended = True\<rparr> \<and>
   (\<forall>m. read m \<lparr>receiver = [], bufp = 3, buffer = Some [], exhausted = True, ended = True\<rparr> =
      Returned [] \<lparr>receiver = [], bufp = 3, buffer = Some [], exhausted = True, ended = True\<rparr>)"
proof -
  let ?s = "\<lparr>receiver = [], bufp = 3, buffer = Some [], exhausted = True, ended = True\<rparr>"
  have r: "read 3 (init_stream [http_request (bytes_of ''ab'') False]) =
          Returned (bytes_of ''ab'') ?s"
    by (simp add: stream_eval)
  have short: "int (length (bytes_of ''ab'')) < 3" by (simp add: bytes_of_def)
  from short_read_is_last[OF _ r short] r short show ?thesis by simp
qed

subsection \<open>No receive after the end\<close>

lemma u_read_ended: "ended s \<Longrightarrow> u_read s = Returned (Some []) s"
  by (simp add: u_read_def)

lemma read_loop_ended:
  "ended s \<Longrightarrow> read_loop n rv s = Returned rv (s\<lparr>buffer := Some [], exhausted := True\<rparr>)"
  by (simp add: read_loop_empty u_read_ended)

lemma read_n_ended: "ended s \<Longrightarrow> quiet s (read_n n s)"
  by (simp add: read_n_def quiet_def read_loop_ended Let_def split: option.splits)

lemma quiet_trans_state:
  "receiver s' = receiver s \<Longrightarrow> quiet s' r \<Longrightarrow> quiet s r"
  by (simp add: quiet_def split: outcome.splits)

lemma read_all_ended: "ended s \<Longrightarrow> quiet s (read_all rv s)"
proof (induction rv s rule: read_all.induct)
  case (1 rv s)
  from read_n_ended[OF "1.prems", of 8192] show ?case
  proof (cases "read_n 8192 s")
    case (Returned v s')
    with read_n_ended[OF "1.prems", of 8192] have q: "receiver s' = receiver s" "ended s'"
      by (simp_all add: quiet_def)
    show ?thesis
    proof (cases "length v = 0")
      case True
      with Returned q show ?thesis by (simp add: read_all.simps[of rv s] quiet_def)
    next
      case False
      from "1.IH"[OF Returned False q(2)] q(1) have "quiet s (read_all (rv @ v) s')"
        by (rule quiet_trans_state[rotated])
      with Returned False show ?thesis by (simp add: read_all.simps[of rv s])
    qed
  qed (simp_all add: read_all.simps[of rv s] quiet_def)
qed

lemma read_ended: "ended s \<Longrightarrow> quiet s (read n s)"
  by (simp add: read_def read_n_ended read_all_ended)

lemma reads_ended: "ended s \<Longrightarrow> quiet s (reads ns s)"
proof (induction ns arbitrary: s)
  case Nil
  then show ?case by (simp add: quiet_def)
next
  case (Cons n ns)
  from read_ended[OF Cons.prems, of n] show ?case
  proof (cases "read n s")
    case (Returned v s')
    with read_ended[OF Cons.prems, of n] have q: "receiver s' = receiver s" "ended s'"
      by (simp_all add: quiet_def)
    from Cons.IH[OF q(2)] q(1) have "quiet s (reads ns s')"
      by (rule quiet_trans_state[rotated])
    with Returned show ?thesis by (simp add: quiet_def split: outcome.splits)
  qed (simp_all add: quiet_def)
qed

lemma read_n_ended_value:
  "ended s \<Longrightarrow> buffer s = Some b \<Longrightarrow>
     \<exists>s'. read_n n s =
       Returned (if n = 0 \<or> exhausted s then [] else py_slice b (bufp s) (bufp s + n)) s'"
  by (simp add: read_n_def read_loop_ended Let_def)

lemma read_all_ended_value:
  "ended s \<Longrightarrow> buffer s = Some b \<Longrightarrow> 0 \<le> bufp s \<Longrightarrow>
     \<exists>s'. read_all rv s =
       Returned (rv @ (if exhausted s then [] else drop (nat (bufp s)) b)) s'"
proof (induction rv s rule: read_all.induct)
  case (1 rv s)
  show ?case
  proof (cases "exhausted s")
    case True
    then show ?thesis by (simp add: read_all_exhausted)
  next
    case False
    let ?v = "py_slice b (bufp s) (bufp s + 8192)"
    have v: "?v = take 8192 (drop (nat (bufp s)) b)"
      using "1.prems"(3) py_slice_nonneg[of "bufp s" 8192 b] by simp
    show ?thesis
    proof (cases "int (length ?v) = 8192")
      case full: True
      let ?s1 = "s\<lparr>bufp := bufp s + 8192\<rparr>"
      have r: "read_n 8192 s = Returned ?v ?s1"
        using False "1.prems"(2) full by (simp add: read_n_def Let_def)
      from full have ne: "length ?v \<noteq> 0" by auto
      have "ended ?s1" "buffer ?s1 = Some b" "0 \<le> bufp ?s1" "\<not> exhausted ?s1"
        using "1.prems" False by simp_all
      with "1.IH"[OF r ne] obtain s' where
        "read_all (rv @ ?v) ?s1 = Returned ((rv @ ?v) @ drop (nat (bufp ?s1)) b) s'"
        by auto
      moreover have "?v @ drop (nat (bufp ?s1)) b = drop (nat (bufp s)) b"
      proof -
        have "nat (bufp ?s1) = 8192 + nat (bufp s)"
          using "1.prems"(3) by simp
        then have "drop (nat (bufp ?s1)) b = drop 8192 (drop (nat (bufp s)) b)"
          by (simp only: drop_drop)
        then show ?thesis unfolding v by (simp only: append_take_drop_id)
      qed
      ultimately show ?thesis
        using r ne False by (simp add: read_all.simps[of rv s])
    next
      case short: False
      let ?s1 = "s\<lparr>buffer := Some [], exhausted := True\<rparr>"
      have r: "read_n 8192 s = Returned ?v ?s1"
        using False "1.prems"(1,2) short
        by (simp add: read_n_def Let_def read_loop_ended)
      from short have all: "?v = drop (nat (bufp s)) b"
        unfolding v by (auto simp: min_def split: if_splits)
      show ?thesis
      proof (cases "length ?v = 0")
        case True
        with r all False show ?thesis by (simp add: read_all.simps[of rv s])
      next
        case ne: False
        have "read_all (rv @ ?v) ?s1 = Returned (rv @ ?v) ?s1"
          by (simp add: read_all_exhausted)
        with r ne all False show ?thesis by (simp add: read_all.simps[of rv s])
      qed
    qed
  qed
qed

text \<open>
  C6, as amended. Once \<open>ended\<close> is set, \<^verbatim>\<open>_read\<close> returns the empty bytes without awaiting
  the receiver, and no sequence of reads takes an event from the receiver or waits for
  one (\<open>quiet\<close>). A read in that state returns bytes of the buffer only: for \<open>n\<close> other
  than \<open>-1\<close> the slice of the buffer at the cursor, \<^verbatim>\<open>buffer[bufp:bufp + n]\<close>, and for
  \<open>read (-1)\<close> with a cursor that is not negative all the bytes of the buffer from the
  cursor on; both are empty when \<open>exhausted\<close> is set or the bytes are used up. The
  iteration of the loop of \<open>read\<close> in which \<^verbatim>\<open>_read\<close> gives zero bytes sets \<open>exhausted\<close> and
  ends the read; from then on every read returns the empty bytes and leaves the stream,
  its receiver included, as it was.
\<close>

theorem no_receive_after_ended:
  "(ended s \<longrightarrow>
      u_read s = Returned (Some []) s \<and> quiet s (reads ns s) \<and>
      (buffer s = Some b \<and> n \<noteq> - 1 \<longrightarrow>
         (\<exists>s'. read n s =
            Returned (if n = 0 \<or> exhausted s then [] else py_slice b (bufp s) (bufp s + n)) s')) \<and>
      (buffer s = Some b \<and> 0 \<le> bufp s \<longrightarrow>
         (\<exists>s'. read (- 1) s =
            Returned (if exhausted s then [] else drop (nat (bufp s)) b) s'))) \<and>
   (u_read s = Returned (Some []) s1 \<longrightarrow>
      read_loop n rv s = Returned rv (s1\<lparr>buffer := Some [], exhausted := True\<rparr>)) \<and>
   (exhausted s \<longrightarrow> reads ns s = Returned (replicate (length ns) []) s)"
  using read_n_ended_value[of s b n] read_all_ended_value[of s b "[]"]
  by (simp add: u_read_ended reads_ended read_loop_empty reads_exhausted read_def)

theorem no_receive_after_ended_witness:
  "ended \<lparr>receiver = [http_disconnect], bufp = 1, buffer = Some (bytes_of ''ab''),
          exhausted = False, ended = True\<rparr> \<and>
   u_read \<lparr>receiver = [http_disconnect], bufp = 1, buffer = Some (bytes_of ''ab''),
          exhausted = False, ended = True\<rparr> =
     Returned (Some []) \<lparr>receiver = [http_disconnect], bufp = 1, buffer = Some (bytes_of ''ab''),
          exhausted = False, ended = True\<rparr> \<and>
   quiet \<lparr>receiver = [http_disconnect], bufp = 1, buffer = Some (bytes_of ''ab''),
          exhausted = False, ended = True\<rparr>
     (reads [4, - 1] \<lparr>receiver = [http_disconnect], bufp = 1, buffer = Some (bytes_of ''ab''),
          exhausted = False, ended = True\<rparr>) \<and>
   (\<exists>s'. read 4 \<lparr>receiver = [http_disconnect], bufp = 1, buffer = Some (bytes_of ''ab''),
          exhausted = False, ended = True\<rparr> = Returned (bytes_of ''b'') s') \<and>
   (\<exists>s'. read (- 1) \<lparr>receiver = [http_disconnect], bufp = 1, buffer = Some (bytes_of ''ab''),
          exhausted = False, ended = True\<rparr> = Returned (bytes_of ''b'') s') \<and>
   u_read (init_stream [http_disconnect]) =
     Returned (Some []) \<lparr>receiver = [], bufp = 0, buffer = Some [], exhausted = False,
          ended = True\<rparr> \<and>
   read_loop 5 [] (init_stream [http_disconnect]) =
     Returned [] \<lparr>receiver = [], bufp = 0, buffer = Some [], exhausted = True, ended = True\<rparr> \<and>
   reads [3, - 1] \<lparr>receiver = [], bufp = 0, buffer = Some [], exhausted = True, ended = True\<rparr> =
     Returned [[], []]
       \<lparr>receiver = [], bufp = 0, buffer = Some [], exhausted = True, ended = True\<rparr>"
proof -
  let ?e = "\<lparr>receiver = [http_disconnect], bufp = 1, buffer = Some (bytes_of ''ab''),
          exhausted = False, ended = True\<rparr>"
  let ?d = "\<lparr>receiver = [], bufp = 0, buffer = Some [], exhausted = False, ended = True\<rparr>"
  let ?x = "\<lparr>receiver = [], bufp = 0, buffer = Some [], exhausted = True, ended = True\<rparr>"
  have e: "ended ?e" "buffer ?e = Some (bytes_of ''ab'')" "(4::int) \<noteq> - 1" "0 \<le> bufp ?e"
    by simp_all
  have d: "u_read (init_stream [http_disconnect]) = Returned (Some []) ?d"
    by (simp add: u_read_def init_stream_def http_disconnect_def str_of_def)
  have x: "exhausted ?x" by simp
  have sl: "py_slice (bytes_of ''ab'') 1 (1 + 4) = bytes_of ''b''"
    by (simp add: py_slice_def bytes_of_def)
  from no_receive_after_ended[where s = ?e and ns = "[4, - 1]" and b = "bytes_of ''ab''"
      and n = 4] e
  have 1: "u_read ?e = Returned (Some []) ?e \<and> quiet ?e (reads [4, - 1] ?e) \<and>
      (\<exists>s'. read 4 ?e = Returned (bytes_of ''b'') s') \<and>
      (\<exists>s'. read (- 1) ?e = Returned (bytes_of ''b'') s')"
    using sl by (simp del: reads.simps add: bytes_of_def)
  from no_receive_after_ended[where s = "init_stream [http_disconnect]" and ?s1.0 = ?d
      and n = 5 and rv = "[]"] d
  have 2: "read_loop 5 [] (init_stream [http_disconnect]) = Returned [] ?x"
    by simp
  from no_receive_after_ended[where s = ?x and ns = "[3, - 1]"] x
  have 3: "reads [3, - 1] ?x = Returned [[], []] ?x"
    by (simp del: reads.simps)
  from e d 1 2 3 show ?thesis by blast
qed

text \<open>
  C6 as it is stated fails on the code: a read in the ended state does not return empty
  while the buffer has bytes left. With the body \<open>abcd\<close> in one final chunk, \<open>read 2\<close>
  returns \<open>ab\<close> and sets \<open>ended\<close>; the next \<open>read 2\<close>, in that state, returns \<open>cd\<close>.
\<close>

theorem no_receive_after_ended_counterexample:
  "read 2 (init_stream [http_request (bytes_of ''abcd'') False]) =
     Returned (bytes_of ''ab'')
       \<lparr>receiver = [], bufp = 2, buffer = Some (bytes_of ''abcd''), exhausted = False,
          ended = True\<rparr> \<and>
   ended \<lparr>receiver = [], bufp = 2, buffer = Some (bytes_of ''abcd''), exhausted = False,
          ended = True\<rparr> \<and>
   read 2 \<lparr>receiver = [], bufp = 2, buffer = Some (bytes_of ''abcd''), exhausted = False,
          ended = True\<rparr> =
     Returned (bytes_of ''cd'')
       \<lparr>receiver = [], bufp = 4, buffer = Some (bytes_of ''abcd''), exhausted = False,
          ended = True\<rparr> \<and>
   bytes_of ''cd'' \<noteq> []"
  by (simp add: stream_eval)

subsection \<open>Messages of an unexpected type\<close>

lemma u_read_unexpected:
  "unexpected ev \<Longrightarrow> \<not> ended s \<Longrightarrow> receiver s = ev # post \<Longrightarrow>
     u_read s = Returned None (s\<lparr>receiver := post\<rparr>)"
  by (simp add: u_read_def unexpected_def)

lemma suffix_Cons_cases:
  "suffix (e # post) (h # rest) \<Longrightarrow> (h = e \<and> rest = post) \<or> suffix (e # post) rest"
  by (auto simp: suffix_Cons)

lemma u_read_pending:
  assumes "unexpected ev" "suffix (ev # post) (receiver s)"
  shows "u_read s \<noteq> Hang"
    and "u_read s = Returned (Some b) s1 \<Longrightarrow> suffix (ev # post) (receiver s1)"
    and "u_read s = Returned None s1 \<Longrightarrow>
           suffix (ev # post) (receiver s1) \<or> receiver s1 = post"
proof -
  from assms(2) obtain h rest where hr: "receiver s = h # rest"
    by (cases "receiver s") auto
  with assms(2) have c: "(h = ev \<and> rest = post) \<or> suffix (ev # post) rest"
    using suffix_Cons_cases by metis
  show "u_read s \<noteq> Hang" using hr by (simp add: u_read_def Let_def)
  show "suffix (ev # post) (receiver s1)" if "u_read s = Returned (Some b) s1"
    using that hr c assms
    by (auto simp: u_read_def Let_def unexpected_def split: if_splits)
  show "suffix (ev # post) (receiver s1) \<or> receiver s1 = post" if "u_read s = Returned None s1"
    using that hr c assms
    by (auto simp: u_read_def Let_def unexpected_def split: if_splits)
qed

lemma read_loop_pending_aux:
  "read_loop n rv s = r \<Longrightarrow> unexpected ev \<Longrightarrow>
     suffix (ev # post) (receiver s) \<longrightarrow> pending_or_raised ev post r"
proof (induction rule: read_loop_induct)
  case (Hang n rv s)
  then show ?case using u_read_pending(1) by blast
next
  case (None n rv s s1)
  then show ?case using u_read_pending(3)[OF None(2) _ None(1)]
    by (auto simp: pending_or_raised_def)
next
  case (Empty n rv s s1)
  then show ?case using u_read_pending(2)[OF Empty(2) _ Empty(1)]
    by (auto simp: pending_or_raised_def)
next
  case (Full n rv s b s1)
  then show ?case using u_read_pending(2)[OF Full(4) _ Full(1)]
    by (auto simp: pending_or_raised_def)
next
  case (More n rv s b s1 r)
  then show ?case using u_read_pending(2)[OF More(5) _ More(1)]
    by auto
qed

lemma read_loop_pending:
  "unexpected ev \<Longrightarrow> suffix (ev # post) (receiver s) \<Longrightarrow>
     pending_or_raised ev post (read_loop n rv s)"
  using read_loop_pending_aux by blast

lemma read_n_pending:
  "unexpected ev \<Longrightarrow> suffix (ev # post) (receiver s) \<Longrightarrow>
     pending_or_raised ev post (read_n n s)"
  by (auto simp: read_n_def Let_def read_loop_pending split: option.splits)
     (auto simp: pending_or_raised_def)

lemma read_all_pending:
  "unexpected ev \<Longrightarrow> suffix (ev # post) (receiver s) \<Longrightarrow>
     pending_or_raised ev post (read_all rv s)"
proof (induction rv s rule: read_all.induct)
  case (1 rv s)
  from read_n_pending[OF "1.prems", of 8192] show ?case
  proof (cases "read_n 8192 s")
    case (Returned v s')
    with read_n_pending[OF "1.prems", of 8192] have q: "suffix (ev # post) (receiver s')"
      by (simp add: pending_or_raised_def)
    show ?thesis
    proof (cases "length v = 0")
      case True
      with Returned q show ?thesis by (simp add: read_all.simps[of rv s] pending_or_raised_def)
    next
      case False
      from "1.IH"[OF Returned False "1.prems"(1) q] Returned False
      show ?thesis by (simp add: read_all.simps[of rv s])
    qed
  qed (simp_all add: read_all.simps[of rv s] pending_or_raised_def)
qed

lemma read_pending:
  "unexpected ev \<Longrightarrow> suffix (ev # post) (receiver s) \<Longrightarrow>
     pending_or_raised ev post (read n s)"
  by (simp add: read_def read_n_pending read_all_pending)

lemma read_n_unexpected:
  assumes "unexpected ev" "\<not> ended s" "\<not> exhausted s" "receiver s = ev # post"
    "buffer s = Some b" "n \<noteq> 0" "int (length (py_slice b (bufp s) (bufp s + n))) \<noteq> n"
  shows "read_n n s = Raised TypeError (s\<lparr>receiver := post, buffer := None\<rparr>)"
  using assms by (simp add: read_n_def Let_def read_loop_None[OF u_read_unexpected])

lemma read_unexpected:
  assumes "unexpected ev" "\<not> ended s" "\<not> exhausted s" "receiver s = ev # post"
    "buffer s = Some b" "n \<noteq> 0"
    "int (length (py_slice b (bufp s) (bufp s + (if n = - 1 then 8192 else n)))) \<noteq>
       (if n = - 1 then 8192 else n)"
  shows "read n s = Raised TypeError (s\<lparr>receiver := post, buffer := None\<rparr>)"
proof (cases "n = - 1")
  case True
  with assms have "read_n 8192 s = Raised TypeError (s\<lparr>receiver := post, buffer := None\<rparr>)"
    by (intro read_n_unexpected) auto
  with True show ?thesis by (simp add: read_def read_all.simps[of "[]" s])
next
  case False
  with assms show ?thesis by (simp add: read_def read_n_unexpected)
qed

text \<open>
  C7. Let \<open>ev\<close> be a message whose type is neither \<^verbatim>\<open>'http.request'\<close> nor
  \<^verbatim>\<open>'http.disconnect'\<close>. Wherever \<open>ev\<close> stands in the receiver, a read either leaves it
  there or raises \<^verbatim>\<open>TypeError\<close> on having received it: no read returns bytes after
  taking \<open>ev\<close>, none skips it. And the read that receives \<open>ev\<close> first (the stream is
  neither ended nor exhausted, the buffer does not hold the bytes asked for, \<open>ev\<close> is the
  next message) raises \<^verbatim>\<open>TypeError\<close> to its caller.
\<close>

theorem unexpected_message_raises:
  "unexpected ev \<Longrightarrow>
     (suffix (ev # post) (receiver s) \<longrightarrow> pending_or_raised ev post (read n s)) \<and>
     (\<not> ended s \<and> \<not> exhausted s \<and> receiver s = ev # post \<and> buffer s = Some b \<and> n \<noteq> 0 \<and>
      int (length (py_slice b (bufp s) (bufp s + (if n = - 1 then 8192 else n)))) \<noteq>
        (if n = - 1 then 8192 else n) \<longrightarrow>
      read n s = Raised TypeError (s\<lparr>receiver := post, buffer := None\<rparr>))"
  using read_pending read_unexpected by blast

theorem unexpected_message_raises_witness:
  "unexpected \<lparr>ev_type = str_of ''websocket.connect'', ev_body = None, ev_more_body = None\<rparr> \<and>
   read 5 (init_stream [http_request (bytes_of ''ab'') True,
       \<lparr>ev_type = str_of ''websocket.connect'', ev_body = None, ev_more_body = None\<rparr>,
       http_disconnect]) =
     Raised TypeError \<lparr>receiver = [http_disconnect], bufp = 5, buffer = None,
       exhausted = False, ended = False\<rparr> \<and>
   pending_or_raised
     \<lparr>ev_type = str_of ''websocket.connect'', ev_body = None, ev_more_body = None\<rparr>
     [http_disconnect]
     (read 5 (init_stream [http_request (bytes_of ''ab'') True,
       \<lparr>ev_type = str_of ''websocket.connect'', ev_body = None, ev_more_body = None\<rparr>,
       http_disconnect])) \<and>
   read (- 1) (init_stream
       [\<lparr>ev_type = str_of ''websocket.connect'', ev_body = None, ev_more_body = None\<rparr>]) =
     Raised TypeError
       \<lparr>receiver = [], bufp = 0, buffer = None, exhausted = False, ended = False\<rparr>"
proof -
  let ?ev = "\<lparr>ev_type = str_of ''websocket.connect'', ev_body = None, ev_more_body = None\<rparr>"
  let ?s = "init_stream [http_request (bytes_of ''ab'') True, ?ev, http_disconnect]"
  have u: "unexpected ?ev" by (simp add: unexpected_def str_of_def)
  have r: "read 5 ?s = Raised TypeError \<lparr>receiver = [http_disconnect], bufp = 5, buffer = None,
       exhausted = False, ended = False\<rparr>"
    by (simp add: stream_eval)
  have sfx: "suffix (?ev # [http_disconnect]) (receiver ?s)"
    by (simp add: init_stream_def suffix_Cons)
  from unexpected_message_raises[OF u, of "[http_disconnect]" ?s 5] sfx
  have p: "pending_or_raised ?ev [http_disconnect] (read 5 ?s)" by blast
  from unexpected_message_raises[OF u, of "[]" "init_stream [?ev]" "- 1" "[]"]
  have d: "read (- 1) (init_stream [?ev]) =
     Raised TypeError \<lparr>receiver = [], bufp = 0, buffer = None, exhausted = False, ended = False\<rparr>"
    by (simp add: init_stream_def py_slice_def)
  from u r p d show ?thesis by blast
qed

subsection \<open>Reading the whole body\<close>

lemma u_read_shape:
  assumes "shape s" "\<not> ended s"
  obtains ev rest where "receiver s = ev # rest"
    "u_read s = Returned (Some (chunk ev)) (s\<lparr>receiver := rest, ended := (rest = [])\<rparr>)"
    "rest \<noteq> [] \<Longrightarrow> chunk ev \<noteq> [] \<and> body_events rest"
proof -
  from assms have be: "body_events (receiver s)" by (simp add: shape_def)
  then obtain ev rest where r: "receiver s = ev # rest" by (cases "receiver s") auto
  show thesis
  proof (cases rest)
    case Nil
    with be r assms(2) have "u_read s = Returned (Some (chunk ev)) (s\<lparr>receiver := rest, ended := (rest = [])\<rparr>)"
      by (auto simp: u_read_def Let_def chunk_def str_of_def split: option.splits)
    with r Nil show ?thesis by (intro that) auto
  next
    case (Cons e2 r2)
    with be r assms(2) have "u_read s = Returned (Some (chunk ev)) (s\<lparr>receiver := rest, ended := (rest = [])\<rparr>)"
      by (auto simp: u_read_def Let_def chunk_def str_of_def split: option.splits)
    moreover from be r Cons have "chunk ev \<noteq> [] \<and> body_events rest"
      by (auto simp: chunk_def split: option.splits)
    ultimately show ?thesis using r by (intro that) auto
  qed
qed

lemma u_read_shape_cases:
  assumes "shape s" "u_read s = r"
  shows "(ended s \<and> receiver s = [] \<and> r = Returned (Some []) s) \<or>
         (\<not> ended s \<and> (\<exists>ev rest. receiver s = ev # rest \<and>
            r = Returned (Some (chunk ev)) (s\<lparr>receiver := rest, ended := (rest = [])\<rparr>) \<and>
            (rest \<noteq> [] \<longrightarrow> chunk ev \<noteq> [] \<and> body_events rest)))"
proof (cases "ended s")
  case True
  with assms show ?thesis by (auto simp: shape_def u_read_def)
next
  case False
  from u_read_shape[OF assms(1) False] assms(2) False show ?thesis by metis
qed

lemma payload_Cons: "payload (ev # rest) = chunk ev @ payload rest"
  by (simp add: payload_def)

lemma payload_Nil: "payload [] = []"
  by (simp add: payload_def)

lemma read_loop_shape_aux:
  "read_loop n rv s = r \<Longrightarrow>
     shape s \<and> \<not> exhausted s \<and> int (length rv) < n \<longrightarrow> loop_post n rv s r"
proof (induction rule: read_loop_induct)
  case (Hang n rv s)
  show ?case using u_read_shape_cases[OF _ Hang] by auto
next
  case (None n rv s s1)
  show ?case using u_read_shape_cases[OF _ None] by auto
next
  case (Empty n rv s s1)
  show ?case
  proof (intro impI, elim conjE)
    assume sh: "shape s" and "\<not> exhausted s" "int (length rv) < n"
    from u_read_shape_cases[OF sh Empty]
    show "loop_post n rv s (Returned rv (s1\<lparr>buffer := Some [], exhausted := True\<rparr>))"
    proof (elim disjE conjE exE)
      assume "ended s" "receiver s = []" "Returned (Some []) s1 = Returned (Some []) s"
      with sh show ?thesis
        by (auto simp: loop_post_def stream_inv_def shape_def pending_def payload_Nil)
    next
      fix ev rest
      assume a: "\<not> ended s" "receiver s = ev # rest"
        "Returned (Some []) s1 = Returned (Some (chunk ev)) (s\<lparr>receiver := rest, ended := (rest = [])\<rparr>)"
        "rest \<noteq> [] \<longrightarrow> chunk ev \<noteq> [] \<and> body_events rest"
      then have "rest = []" "chunk ev = []" by auto
      with a sh show ?thesis
        by (auto simp: loop_post_def stream_inv_def shape_def pending_def payload_Nil payload_Cons)
    qed
  qed
next
  case (Full n rv s b s1)
  show ?case
  proof (intro impI, elim conjE)
    assume sh: "shape s" and ne: "\<not> exhausted s" and lt: "int (length rv) < n"
    let ?k = "nat (n - int (length rv))"
    from lt have sl: "py_slice b 0 (n - int (length rv)) = take ?k b"
      by (simp add: py_slice_from_0)
    from Full(3) lt have kb: "?k \<le> length b" unfolding sl by auto
    from u_read_shape_cases[OF sh Full(1)] Full(2)
    obtain ev rest where a: "\<not> ended s" "receiver s = ev # rest" "b = chunk ev"
      "s1 = s\<lparr>receiver := rest, ended := (rest = [])\<rparr>"
      "rest \<noteq> [] \<longrightarrow> body_events rest"
      by auto
    show "loop_post n rv s (Returned (rv @ py_slice b 0 (n - int (length rv)))
             (s1\<lparr>buffer := Some b, bufp := n - int (length rv)\<rparr>))"
      unfolding sl using a sh ne lt kb
      by (auto simp: loop_post_def stream_inv_def shape_def pending_def payload_Cons)
  qed
next
  case (More n rv s b s1 r)
  show ?case
  proof (intro impI, elim conjE)
    assume sh: "shape s" and ne: "\<not> exhausted s" and lt: "int (length rv) < n"
    let ?k = "nat (n - int (length rv))"
    from lt have sl: "py_slice b 0 (n - int (length rv)) = take ?k b"
      by (simp add: py_slice_from_0)
    from More(3) lt have kb: "length b < ?k" unfolding sl by auto
    then have tk: "take ?k b = b" by simp
    from u_read_shape_cases[OF sh More(1)] More(2)
    obtain ev rest where a: "\<not> ended s" "receiver s = ev # rest" "b = chunk ev"
      "s1 = s\<lparr>receiver := rest, ended := (rest = [])\<rparr>"
      "rest \<noteq> [] \<longrightarrow> body_events rest"
      by auto
    let ?s3 = "s1\<lparr>buffer := Some b, bufp := n - int (length rv)\<rparr>"
    have "shape ?s3" "\<not> exhausted ?s3" "int (length (rv @ b)) < n"
      using a sh ne lt kb by (auto simp: shape_def)
    with More(4)[unfolded sl tk] have "loop_post n (rv @ b) ?s3 r" by simp
    then obtain s' where s': "r = Returned ((rv @ b) @
          take (nat (n - int (length (rv @ b)))) (payload (receiver ?s3))) s'"
        "stream_inv s'"
        "pending s' = drop (nat (n - int (length (rv @ b)))) (payload (receiver ?s3))"
      unfolding loop_post_def by blast
    have k2: "nat (n - int (length (rv @ b))) = ?k - length b"
      using lt kb by simp
    have rc: "receiver ?s3 = rest" using a by simp
    have "rv @ take ?k (payload (receiver s)) = (rv @ b) @ take (?k - length b) (payload rest)"
      using a kb by (simp add: payload_Cons)
    moreover have "drop ?k (payload (receiver s)) = drop (?k - length b) (payload rest)"
      using a kb by (simp add: payload_Cons)
    ultimately show "loop_post n rv s r"
      unfolding loop_post_def using s'[unfolded k2 rc] by auto
  qed
qed

lemma read_loop_shape:
  "shape s \<Longrightarrow> \<not> exhausted s \<Longrightarrow> int (length rv) < n \<Longrightarrow> loop_post n rv s (read_loop n rv s)"
  using read_loop_shape_aux by blast

lemma read_n_inv:
  assumes "stream_inv s" "0 < n"
  shows "\<exists>s'. read_n n s = Returned (take (nat n) (pending s)) s' \<and> stream_inv s' \<and>
           pending s' = drop (nat n) (pending s)"
proof (cases "exhausted s")
  case True
  with assms show ?thesis by (auto simp: read_n_def stream_inv_def)
next
  case False
  from assms obtain b where b: "buffer s = Some b" and sh: "shape s" and p0: "0 \<le> bufp s"
    by (auto simp: stream_inv_def shape_def)
  let ?rv = "py_slice b (bufp s) (bufp s + n)"
  let ?d = "drop (nat (bufp s)) b"
  have rv: "?rv = take (nat n) ?d"
    using p0 assms(2) by (simp add: py_slice_nonneg)
  have pd: "pending s = ?d @ payload (receiver s)"
    using b by (simp add: pending_def)
  show ?thesis
  proof (cases "int (length ?rv) = n")
    case True
    then have len: "nat n \<le> length ?d" unfolding rv by auto
    have r: "read_n n s = Returned ?rv (s\<lparr>bufp := bufp s + n\<rparr>)"
      using False b True assms(2) by (simp add: read_n_def Let_def)
    have "stream_inv (s\<lparr>bufp := bufp s + n\<rparr>)"
      using assms False p0 by (auto simp: stream_inv_def shape_def)
    moreover have "pending (s\<lparr>bufp := bufp s + n\<rparr>) = drop (nat n) (pending s)"
      using len b p0 assms(2) unfolding pd
      by (simp add: pending_def nat_add_distrib add.commute)
    moreover have "?rv = take (nat n) (pending s)"
      unfolding pd rv using len by simp
    ultimately show ?thesis using r by auto
  next
    case F: False
    define d where "d = drop (nat (bufp s)) b"
    from F have len: "length d < nat n" unfolding rv d_def using assms(2) by auto
    then have rvd: "?rv = d" unfolding rv d_def by simp
    have lt: "int (length d) < n" using len by simp
    have r: "read_n n s = read_loop n d s"
      using False b F assms(2) by (simp add: read_n_def Let_def rvd[symmetric])
    from read_loop_shape[OF sh False lt] obtain s' where
      s': "read_loop n d s = Returned (d @ take (nat (n - int (length d))) (payload (receiver s))) s'"
        "stream_inv s'" "pending s' = drop (nat (n - int (length d))) (payload (receiver s))"
      unfolding loop_post_def by blast
    have k: "nat (n - int (length d)) = nat n - length d"
      using len by linarith
    have pd': "pending s = d @ payload (receiver s)"
      using pd by (simp add: d_def)
    show ?thesis
      unfolding r pd' using s'[unfolded k] len by auto
  qed
qed

lemma read_all_inv:
  "stream_inv s \<Longrightarrow> \<exists>s'. read_all rv s = Returned (rv @ pending s) s' \<and> exhausted s' \<and> stream_inv s'"
proof (induction rv s rule: read_all.induct)
  case (1 rv s)
  from read_n_inv[OF "1.prems", of 8192] obtain s1 where
    s1: "read_n 8192 s = Returned (take 8192 (pending s)) s1" "stream_inv s1"
      "pending s1 = drop 8192 (pending s)"
    by auto
  show ?case
  proof (cases "length (take 8192 (pending s)) = 0")
    case True
    then have e: "pending s = []" by (cases "pending s") auto
    from read_n_full_or_exhausted[OF s1(1)] True have "exhausted s1" by auto
    with s1 True e show ?thesis by (simp add: read_all.simps[of rv s])
  next
    case False
    from "1.IH"[OF s1(1) False s1(2)] obtain s' where
      "read_all (rv @ take 8192 (pending s)) s1 = Returned ((rv @ take 8192 (pending s)) @ pending s1) s'"
      "exhausted s'" "stream_inv s'"
      by blast
    with s1 False show ?thesis by (simp add: read_all.simps[of rv s])
  qed
qed

text \<open>
  C2, as amended. For a body delivered as \<^verbatim>\<open>'http.request'\<close> events of which every one
  before the last carries a chunk that is not empty (the last is not marked for
  continuation), \<open>read (-1)\<close>, the read with \<open>n\<close> unspecified, returns exactly the bytes of
  the chunks in their order, whatever the chunk boundaries; it leaves the stream exhausted
  with nothing in the receiver, so a second \<open>read (-1)\<close> returns nothing: the bytes are
  returned once.
\<close>

theorem read_all_returns_body:
  "body_events evs \<Longrightarrow>
     \<exists>s'. read (- 1) (init_stream evs) = Returned (payload evs) s' \<and>
          exhausted s' \<and> receiver s' = [] \<and> read (- 1) s' = Returned [] s'"
proof -
  assume be: "body_events evs"
  then have i: "stream_inv (init_stream evs)"
    by (simp add: stream_inv_def shape_def init_stream_def)
  from read_all_inv[OF i, of "[]"] obtain s' where
    s': "read_all [] (init_stream evs) = Returned (pending (init_stream evs)) s'"
      "exhausted s'" "stream_inv s'"
    by auto
  have "pending (init_stream evs) = payload evs"
    by (simp add: pending_def init_stream_def)
  moreover from s'(2,3) have "receiver s' = []" by (auto simp: stream_inv_def shape_def)
  ultimately show ?thesis using s' by (auto simp: read_def read_all_exhausted)
qed

theorem read_all_returns_body_witness:
  "body_events [http_request (bytes_of ''ab'') True, http_request (bytes_of ''cd'') True,
      http_request [] False] \<and>
   payload [http_request (bytes_of ''ab'') True, http_request (bytes_of ''cd'') True,
      http_request [] False] = bytes_of ''abcd'' \<and>
   (\<exists>s'. read (- 1) (init_stream [http_request (bytes_of ''ab'') True,
            http_request (bytes_of ''cd'') True, http_request [] False]) =
          Returned (payload [http_request (bytes_of ''ab'') True,
            http_request (bytes_of ''cd'') True, http_request [] False]) s' \<and>
        exhausted s' \<and> receiver s' = [] \<and> read (- 1) s' = Returned [] s')"
proof -
  let ?evs = "[http_request (bytes_of ''ab'') True, http_request (bytes_of ''cd'') True,
      http_request [] False]"
  have be: "body_events ?evs"
    by (simp add: http_request_def bytes_of_def)
  have "payload ?evs = bytes_of ''abcd''"
    by (simp add: payload_def chunk_def http_request_def bytes_of_def)
  with be read_all_returns_body[OF be] show ?thesis by blast
qed

text \<open>
  C2 as it is stated fails on the code. \<open>read (-2)\<close> is not the read of the whole body:
  only \<open>n = -1\<close> is tested at line 33, and with the body \<open>abcd\<close> in one chunk \<open>read (-2)\<close>
  returns \<open>ab\<close>. And \<open>read (-1)\<close> stops at the first chunk that is empty: of the chunks
  \<open>ab\<close>, the empty chunk and \<open>cd\<close> it returns \<open>ab\<close> and leaves the last event in the
  receiver.
\<close>

theorem read_all_counterexample:
  "payload [http_request (bytes_of ''abcd'') False] = bytes_of ''abcd'' \<and>
   read (- 2) (init_stream [http_request (bytes_of ''abcd'') False]) =
     Returned (bytes_of ''ab'')
       \<lparr>receiver = [], bufp = - 2, buffer = Some [], exhausted = True, ended = True\<rparr> \<and>
   payload [http_request (bytes_of ''ab'') True, http_request [] True,
       http_request (bytes_of ''cd'') False] = bytes_of ''abcd'' \<and>
   read (- 1) (init_stream [http_request (bytes_of ''ab'') True, http_request [] True,
       http_request (bytes_of ''cd'') False]) =
     Returned (bytes_of ''ab'')
       \<lparr>receiver = [http_request (bytes_of ''cd'') False], bufp = 8192, buffer = Some [],
          exhausted = True, ended = False\<rparr> \<and>
   bytes_of ''ab'' \<noteq> bytes_of ''abcd''"
  by (simp add: stream_eval payload_def chunk_def)

section \<open>Properties of the translator\<close>

lemma values_of_Nil: "values_of [] key = []"
  by (simp add: values_of_def)

lemma values_of_Cons:
  "values_of ((k, v) # hs) key =
     (if wsgi_key_of k = key then decode_latin1 v # values_of hs key else values_of hs key)"
  by (simp add: values_of_def)

lemma add_headers_merged:
  "\<forall>h \<in> set hs. str_or_absent (environ (wsgi_key_of (fst h))) \<Longrightarrow>
     \<exists>env'. add_headers environ hs = Inr env' \<and>
       (\<forall>key. env' key = merged (environ key) (values_of hs key))"
proof (induction hs arbitrary: environ)
  case Nil
  then show ?case by (simp add: merged_def values_of_Nil)
next
  case (Cons h hs)
  obtain k v where h: "h = (k, v)" by (cases h)
  let ?key = "wsgi_key_of k"
  from Cons.prems h have soa: "str_or_absent (environ ?key)" by simp
  define new where "new = (case environ ?key of None \<Rightarrow> decode_latin1 v
     | Some (Str old) \<Rightarrow> old @ str_of ''; '' @ decode_latin1 v | Some _ \<Rightarrow> [])"
  let ?env1 = "environ(?key \<mapsto> Str new)"
  have step: "add_headers environ (h # hs) = add_headers ?env1 hs"
    using soa unfolding h new_def
    by (auto simp: str_or_absent_def Let_def split: option.splits pyval.splits)
  have "\<forall>h \<in> set hs. str_or_absent (?env1 (wsgi_key_of (fst h)))"
    using Cons.prems by (auto simp: str_or_absent_def)
  from Cons.IH[OF this] obtain env' where
    env': "add_headers ?env1 hs = Inr env'"
      "\<And>key. env' key = merged (?env1 key) (values_of hs key)"
    by blast
  have "env' key = merged (environ key) (values_of (h # hs) key)" for key
  proof (cases "key = ?key")
    case False
    with env'(2)[of key] show ?thesis unfolding h by (auto simp: values_of_Cons)
  next
    case True
    with env'(2)[of key] soa show ?thesis unfolding h new_def
      by (cases "values_of hs (wsgi_key_of k)")
         (auto simp: values_of_Cons merged_def str_or_absent_def
               split: option.splits pyval.splits)
  qed
  with env'(1) step show ?case by auto
qed

lemma wsgi_key_not_base: "wsgi_key_of k \<notin> set base_keys"
  by (simp add: wsgi_key_of_def Let_def base_keys_def str_of_def)

lemma values_of_base: "key \<in> set base_keys \<Longrightarrow> values_of hs key = []"
  using wsgi_key_not_base by (auto simp: values_of_def filter_empty_conv)

lemma merged_absent:
  "merged None vs = (if vs = [] then None else Some (Str (join_values vs)))"
  by (simp add: merged_def split: list.splits)

lemma asgi_scope_to_environ_spec:
  assumes "method sc = Some m" "path sc = Some p" "query_string sc = Some q"
  shows "\<exists>env. asgi_scope_to_environ sc = Inr env \<and>
     env (str_of ''REQUEST_METHOD'') = Some (Str m) \<and>
     env (str_of ''SCRIPT_NAME'') = Some (Str (case root_path sc of None \<Rightarrow> [] | Some r \<Rightarrow> r)) \<and>
     env (str_of ''PATH_INFO'') =
       Some (Str ((case root_path sc of None \<Rightarrow> [] | Some r \<Rightarrow> r) @ p)) \<and>
     env (str_of ''QUERY_STRING'') = Some (Str (decode_latin1 q)) \<and>
     env (str_of ''SERVER_NAME'') =
       Some (case server sc of None \<Rightarrow> NoneVal | Some (h, n) \<Rightarrow> Str h) \<and>
     env (str_of ''SERVER_PORT'') =
       Some (case server sc of None \<Rightarrow> NoneVal | Some (h, n) \<Rightarrow> IntVal n) \<and>
     env (str_of ''REMOTE_HOST'') =
       Some (case client sc of None \<Rightarrow> NoneVal | Some (h, n) \<Rightarrow> Str h) \<and>
     env (str_of ''REMOTE_ADDR'') =
       Some (case client sc of None \<Rightarrow> NoneVal | Some (h, n) \<Rightarrow> Str h) \<and>
     env (str_of ''REMOTE_PORT'') =
       Some (case client sc of None \<Rightarrow> NoneVal | Some (h, n) \<Rightarrow> IntVal n) \<and>
     env (str_of ''wsgi.url_scheme'') =
       Some (Str (case scheme sc of None \<Rightarrow> str_of ''http'' | Some s \<Rightarrow> s)) \<and>
     (\<forall>key. key \<notin> set base_keys \<longrightarrow>
        env key = (if values_of (header_list sc) key = [] then None
                   else Some (Str (join_values (values_of (header_list sc) key)))))"
proof -
  define rp where "rp = (case root_path sc of None \<Rightarrow> [] | Some r \<Rightarrow> r)"
  define sv where "sv = (case server sc of None \<Rightarrow> (NoneVal, NoneVal)
                     | Some (h, n) \<Rightarrow> (Str h, IntVal n))"
  define cl where "cl = (case client sc of None \<Rightarrow> (NoneVal, NoneVal)
                     | Some (h, n) \<Rightarrow> (Str h, IntVal n))"
  define env0 :: environ where "env0 =
                 [str_of ''REQUEST_METHOD'' \<mapsto> Str m,
                  str_of ''SCRIPT_NAME'' \<mapsto> Str rp,
                  str_of ''PATH_INFO'' \<mapsto> Str (rp @ p),
                  str_of ''QUERY_STRING'' \<mapsto> Str (decode_latin1 q),
                  str_of ''SERVER_NAME'' \<mapsto> fst sv,
                  str_of ''SERVER_PORT'' \<mapsto> snd sv,
                  str_of ''REMOTE_HOST'' \<mapsto> fst cl,
                  str_of ''REMOTE_ADDR'' \<mapsto> fst cl,
                  str_of ''REMOTE_PORT'' \<mapsto> snd cl,
                  str_of ''wsgi.url_scheme'' \<mapsto>
                    Str (case scheme sc of None \<Rightarrow> str_of ''http'' | Some s \<Rightarrow> s)]"
  have a: "asgi_scope_to_environ sc = add_headers env0 (header_list sc)"
    using assms
    by (simp add: asgi_scope_to_environ_def header_list_def env0_def rp_def sv_def cl_def Let_def)
  have nb: "env0 key = None" if "key \<notin> set base_keys" for key
    using that by (simp add: env0_def base_keys_def)
  have "\<forall>h \<in> set (header_list sc). str_or_absent (env0 (wsgi_key_of (fst h)))"
    using nb[OF wsgi_key_not_base] by (simp add: str_or_absent_def)
  from add_headers_merged[OF this] obtain env where
    env: "add_headers env0 (header_list sc) = Inr env"
      "\<And>key. env key = merged (env0 key) (values_of (header_list sc) key)"
    by blast
  have b: "env key = env0 key" if "key \<in> set base_keys" for key
    using env(2)[of key] values_of_base[OF that] by (simp add: merged_def)
  have c: "env key = (if values_of (header_list sc) key = [] then None
                   else Some (Str (join_values (values_of (header_list sc) key))))"
    if "key \<notin> set base_keys" for key
    using env(2)[of key] nb[OF that] by (simp add: merged_absent)
  have vals: "env0 (str_of ''REQUEST_METHOD'') = Some (Str m)"
     "env0 (str_of ''SCRIPT_NAME'') = Some (Str rp)"
     "env0 (str_of ''PATH_INFO'') = Some (Str (rp @ p))"
     "env0 (str_of ''QUERY_STRING'') = Some (Str (decode_latin1 q))"
     "env0 (str_of ''SERVER_NAME'') = Some (fst sv)"
     "env0 (str_of ''SERVER_PORT'') = Some (snd sv)"
     "env0 (str_of ''REMOTE_HOST'') = Some (fst cl)"
     "env0 (str_of ''REMOTE_ADDR'') = Some (fst cl)"
     "env0 (str_of ''REMOTE_PORT'') = Some (snd cl)"
     "env0 (str_of ''wsgi.url_scheme'') =
        Some (Str (case scheme sc of None \<Rightarrow> str_of ''http'' | Some s \<Rightarrow> s))"
    by (simp_all add: env0_def str_of_def)
  have fs: "fst sv = (case server sc of None \<Rightarrow> NoneVal | Some (h, n) \<Rightarrow> Str h)"
       "snd sv = (case server sc of None \<Rightarrow> NoneVal | Some (h, n) \<Rightarrow> IntVal n)"
       "fst cl = (case client sc of None \<Rightarrow> NoneVal | Some (h, n) \<Rightarrow> Str h)"
       "snd cl = (case client sc of None \<Rightarrow> NoneVal | Some (h, n) \<Rightarrow> IntVal n)"
    by (simp_all add: sv_def cl_def split: option.splits prod.splits)
  have inb: "str_of ''REQUEST_METHOD'' \<in> set base_keys" "str_of ''SCRIPT_NAME'' \<in> set base_keys"
    "str_of ''PATH_INFO'' \<in> set base_keys" "str_of ''QUERY_STRING'' \<in> set base_keys"
    "str_of ''SERVER_NAME'' \<in> set base_keys" "str_of ''SERVER_PORT'' \<in> set base_keys"
    "str_of ''REMOTE_HOST'' \<in> set base_keys" "str_of ''REMOTE_ADDR'' \<in> set base_keys"
    "str_of ''REMOTE_PORT'' \<in> set base_keys" "str_of ''wsgi.url_scheme'' \<in> set base_keys"
    by (simp_all add: base_keys_def)
  show ?thesis
    unfolding a env(1) rp_def[symmetric]
    using inb[THEN b] vals c fs by simp
qed

lemma asgi_scope_to_environ_Inr:
  "asgi_scope_to_environ sc = Inr env \<Longrightarrow>
     \<exists>m p q. method sc = Some m \<and> path sc = Some p \<and> query_string sc = Some q"
  by (auto simp: asgi_scope_to_environ_def split: option.splits)

lemma values_of_empty_iff:
  "values_of hs key = [] \<longleftrightarrow> key \<notin> wsgi_key_of ` fst ` set hs"
  by (auto simp: values_of_def filter_empty_conv)

text \<open>
  C8, as amended. The map has exactly one entry for each key the headers are given, and
  none else beside the ten keys of the dict display. The key of a header is its name
  decoded, with dashes turned to underscores and upper-cased, and prefixed with
  \<^verbatim>\<open>HTTP_\<close> unless this is \<^verbatim>\<open>CONTENT_TYPE\<close> or \<^verbatim>\<open>CONTENT_LENGTH\<close>; it is never one of the
  ten. The entry of a key is the values of all the headers with this key (a name that
  repeats, or names that differ in case or in dash and underscore only), joined with
  \<^verbatim>\<open>'; '\<close> in the order of the list.
\<close>

theorem header_entries_joined:
  "asgi_scope_to_environ sc = Inr env \<Longrightarrow>
     (\<forall>key. key \<notin> set base_keys \<longrightarrow>
        env key = (if values_of (header_list sc) key = [] then None
                   else Some (Str (join_values (values_of (header_list sc) key))))) \<and>
     dom env = set base_keys \<union> wsgi_key_of ` fst ` set (header_list sc) \<and>
     (\<forall>k. wsgi_key_of k \<notin> set base_keys \<and>
        wsgi_key_of k =
          (if upper (replace_dash (decode_latin1 k)) \<in>
                {str_of ''CONTENT_TYPE'', str_of ''CONTENT_LENGTH''}
           then upper (replace_dash (decode_latin1 k))
           else str_of ''HTTP_'' @ upper (replace_dash (decode_latin1 k))))"
proof -
  assume r: "asgi_scope_to_environ sc = Inr env"
  from asgi_scope_to_environ_Inr[OF r] obtain m p q where
    mpq: "method sc = Some m" "path sc = Some p" "query_string sc = Some q" by blast
  from asgi_scope_to_environ_spec[OF mpq] r have
    hk: "\<And>key. key \<notin> set base_keys \<Longrightarrow>
        env key = (if values_of (header_list sc) key = [] then None
                   else Some (Str (join_values (values_of (header_list sc) key))))"
    and bk: "\<And>key. key \<in> set base_keys \<Longrightarrow> env key \<noteq> None"
    by (auto simp: base_keys_def)
  have "key \<in> dom env \<longleftrightarrow>
          key \<in> set base_keys \<union> wsgi_key_of ` fst ` set (header_list sc)" for key
  proof (cases "key \<in> set base_keys")
    case True
    with bk show ?thesis by auto
  next
    case False
    with hk[OF False] values_of_empty_iff[of "header_list sc" key] show ?thesis
      by (auto simp: dom_def)
  qed
  then have "dom env = set base_keys \<union> wsgi_key_of ` fst ` set (header_list sc)"
    by blast
  with hk wsgi_key_not_base show ?thesis
    by (auto simp: wsgi_key_of_def Let_def)
qed

lemmas environ_eval = environ_at_def asgi_scope_to_environ_def str_of_def bytes_of_def
  wsgi_key_of_def upper_def upper_char_def replace_dash_def decode_latin1_def Let_def

theorem header_entries_joined_witness:
  "environ_at (str_of ''HTTP_X_A'')
     (asgi_scope_to_environ
       \<lparr>method = Some (str_of ''GET''), root_path = None, path = Some (str_of ''/x''),
        query_string = Some (bytes_of ''a=1''), server = None, client = None, scheme = None,
        headers = Some [(bytes_of ''x-a'', bytes_of ''1''), (bytes_of ''x-a'', bytes_of ''2'')]\<rparr>) =
     Inr (Some (Str (join_values [str_of ''1'', str_of ''2'']))) \<and>
   join_values [str_of ''1'', str_of ''2''] = str_of ''1; 2'' \<and>
   wsgi_key_of (bytes_of ''x-a'') = str_of ''HTTP_X_A'' \<and>
   str_of ''HTTP_X_A'' \<notin> set base_keys"
proof -
  let ?sc = "\<lparr>method = Some (str_of ''GET''), root_path = None, path = Some (str_of ''/x''),
        query_string = Some (bytes_of ''a=1''), server = None, client = None, scheme = None,
        headers = Some [(bytes_of ''x-a'', bytes_of ''1''), (bytes_of ''x-a'', bytes_of ''2'')]\<rparr>"
  have "method ?sc = Some (str_of ''GET'')" "path ?sc = Some (str_of ''/x'')"
    "query_string ?sc = Some (bytes_of ''a=1'')" by simp_all
  from asgi_scope_to_environ_spec[OF this]
  obtain env where env: "asgi_scope_to_environ ?sc = Inr env" by blast
  have k: "wsgi_key_of (bytes_of ''x-a'') = str_of ''HTTP_X_A''"
    by (simp add: environ_eval)
  have nb: "str_of ''HTTP_X_A'' \<notin> set base_keys"
    by (simp add: base_keys_def str_of_def)
  have v: "values_of (header_list ?sc) (str_of ''HTTP_X_A'') = [str_of ''1'', str_of ''2'']"
    by (simp add: values_of_def header_list_def k) (simp add: environ_eval)
  from header_entries_joined[OF env] nb v
  have "env (str_of ''HTTP_X_A'') = Some (Str (join_values [str_of ''1'', str_of ''2'']))"
    by simp
  moreover have "join_values [str_of ''1'', str_of ''2''] = str_of ''1; 2''"
    by (simp add: str_of_def)
  ultimately show ?thesis using env k nb by (simp add: environ_at_def)
qed

text \<open>
  C8 as it is stated fails on the code. The names \<^verbatim>\<open>x-a\<close> and \<^verbatim>\<open>x_a\<close> are distinct and
  get one entry between them, \<^verbatim>\<open>HTTP_X_A\<close>; and the name \<^verbatim>\<open>content_type\<close>, which is neither
  \<^verbatim>\<open>content-type\<close> nor \<^verbatim>\<open>content-length\<close>, is stored bare, since line 75 tests the key
  and not the name.
\<close>

theorem header_entries_counterexample:
  "bytes_of ''x-a'' \<noteq> bytes_of ''x_a'' \<and>
   environ_at (str_of ''HTTP_X_A'')
     (asgi_scope_to_environ
       \<lparr>method = Some (str_of ''GET''), root_path = None, path = Some (str_of ''/x''),
        query_string = Some [], server = None, client = None, scheme = None,
        headers = Some [(bytes_of ''x-a'', bytes_of ''1''), (bytes_of ''x_a'', bytes_of ''2'')]\<rparr>) =
     Inr (Some (Str (str_of ''1; 2''))) \<and>
   wsgi_key_of (bytes_of ''x-a'') = wsgi_key_of (bytes_of ''x_a'') \<and>
   bytes_of ''content_type'' \<noteq> bytes_of ''content-type'' \<and>
   bytes_of ''content_type'' \<noteq> bytes_of ''content-length'' \<and>
   environ_at (str_of ''CONTENT_TYPE'')
     (asgi_scope_to_environ
       \<lparr>method = Some (str_of ''GET''), root_path = None, path = Some (str_of ''/x''),
        query_string = Some [], server = None, client = None, scheme = None,
        headers = Some [(bytes_of ''content_type'', bytes_of ''a'')]\<rparr>) =
     Inr (Some (Str (str_of ''a''))) \<and>
   environ_at (str_of ''HTTP_CONTENT_TYPE'')
     (asgi_scope_to_environ
       \<lparr>method = Some (str_of ''GET''), root_path = None, path = Some (str_of ''/x''),
        query_string = Some [], server = None, client = None, scheme = None,
        headers = Some [(bytes_of ''content_type'', bytes_of ''a'')]\<rparr>) =
     Inr None"
  by (simp add: environ_eval)




section \<open>Properties of the response\<close>

lemmas response_eval = asgi_call_def get_wsgi_response_def get_app_iter_def run_response_def
  aiter_encoded_def asyncify_def py_list_def encode_item_def

text \<open>
  C5. For a scope with method, path and query string, when the method is \<^verbatim>\<open>HEAD\<close> or
  the status is in 100..199 or is 204 or 304, the frames sent are exactly the start frame
  followed by one body frame with neither body nor \<^verbatim>\<open>more_body\<close>; no data frame is sent,
  whatever the body of the response, its passthrough flag and \<^verbatim>\<open>__debug__\<close> are.
\<close>

theorem bodyless_response_frames:
  "method sc = Some m \<Longrightarrow> path sc = Some p \<Longrightarrow> query_string sc = Some q \<Longrightarrow>
   m = str_of ''HEAD'' \<or> (100 \<le> status_code self \<and> status_code self < 200) \<or>
     status_code self = 204 \<or> status_code self = 304 \<Longrightarrow>
     asgi_call debug self sc =
       Returned () [Start (status_code self) (wsgi_headers self), Body None None]"
proof -
  assume mpq: "method sc = Some m" "path sc = Some p" "query_string sc = Some q"
    and c: "m = str_of ''HEAD'' \<or> (100 \<le> status_code self \<and> status_code self < 200) \<or>
     status_code self = 204 \<or> status_code self = 304"
  from asgi_scope_to_environ_spec[OF mpq] obtain env where
    env: "asgi_scope_to_environ sc = Inr env" "env (str_of ''REQUEST_METHOD'') = Some (Str m)"
    by blast
  from c env(2) have
    "get_app_iter debug self env = Inr \<lparr>has_aiter = True, py_len = None, elems = []\<rparr>"
    by (auto simp: get_app_iter_def aiter_encoded_def asyncify_def py_list_def Let_def)
  then show ?thesis
    using env(1) by (simp add: asgi_call_def get_wsgi_response_def run_response_def)
qed

theorem bodyless_response_frames_witness:
  "asgi_call True
     \<lparr>response = py_list [BytesItem (bytes_of ''abc''), TextItem (str_of ''def'')],
      status_code = 200, encode = encode_latin1, direct_passthrough = False,
      wsgi_headers = [(str_of ''Content-Length'', str_of ''6'')]\<rparr>
     (plain_scope (str_of ''HEAD'')) =
     Returned () [Start 200 [(str_of ''Content-Length'', str_of ''6'')], Body None None] \<and>
   asgi_call True
     \<lparr>response = py_list [BytesItem (bytes_of ''abc'')],
      status_code = 204, encode = encode_latin1, direct_passthrough = True,
      wsgi_headers = []\<rparr>
     (plain_scope (str_of ''GET'')) =
     Returned () [Start 204 [], Body None None]"
proof -
  have sc: "method (plain_scope m) = Some m" "path (plain_scope m) = Some (str_of ''/'')"
    "query_string (plain_scope m) = Some []" for m
    by (simp_all add: plain_scope_def)
  from bodyless_response_frames[OF sc, of "str_of ''HEAD''"
      "\<lparr>response = py_list [BytesItem (bytes_of ''abc''), TextItem (str_of ''def'')],
      status_code = 200, encode = encode_latin1, direct_passthrough = False,
      wsgi_headers = [(str_of ''Content-Length'', str_of ''6'')]\<rparr>" True]
    bodyless_response_frames[OF sc, of "str_of ''GET''"
      "\<lparr>response = py_list [BytesItem (bytes_of ''abc'')],
      status_code = 204, encode = encode_latin1, direct_passthrough = True,
      wsgi_headers = []\<rparr>" True]
  show ?thesis by simp
qed

text \<open>
  The frames of a body in general. Without a count, every chunk is tagged and an empty
  frame follows (the second half of C1). With a count that the chunks do not exceed,
  every chunk is tagged as well, the last included.
\<close>

lemma send_items_unknown:
  "send_items None i (map Inr xs) sent =
     Returned () (sent @ map (\<lambda>x. Body (Some x) (Some True)) xs)"
  by (induction xs arbitrary: i sent) simp_all

lemma send_items_known:
  "i + length xs \<le> n \<Longrightarrow>
     send_items (Some n) i (map Inr xs) sent =
       Returned () (sent @ map (\<lambda>x. Body (Some x) (Some True)) xs)"
  by (induction xs arbitrary: i sent) simp_all

lemma in_memory_body_frames:
  assumes "method sc = Some m" "path sc = Some p" "query_string sc = Some q"
    and "m \<noteq> str_of ''HEAD''" "status_code self = 200" "\<not> direct_passthrough self"
    and "response self = py_list (map BytesItem bs)"
  shows "asgi_call debug self sc =
     Returned () (Start 200 (wsgi_headers self) #
       map (\<lambda>b. Body (Some (BytesItem b)) (Some True)) bs @ [Body None None])"
proof -
  from asgi_scope_to_environ_spec[OF assms(1-3)] obtain env where
    env: "asgi_scope_to_environ sc = Inr env" "env (str_of ''REQUEST_METHOD'') = Some (Str m)"
    by blast
  have "map (encode_item self) (map Inr (map BytesItem bs)) = map Inr (map BytesItem bs)"
    by (simp add: encode_item_def)
  with assms(4-7) env(2) have
    "get_app_iter debug self env =
       Inr \<lparr>has_aiter = True, py_len = None, elems = map Inr (map BytesItem bs)\<rparr>"
    by (simp add: get_app_iter_def aiter_encoded_def asyncify_def py_list_def Let_def)
  moreover have "send_items None 0 (map (\<lambda>x. Inr (BytesItem x)) bs) sent =
      Returned () (sent @ map (\<lambda>b. Body (Some (BytesItem b)) (Some True)) bs)" for sent
    using send_items_unknown[of 0 "map BytesItem bs" sent] by (simp add: comp_def)
  ultimately show ?thesis
    using env(1) assms(5)
    by (simp add: asgi_call_def get_wsgi_response_def run_response_def comp_def)
qed

lemma sized_passthrough_frames:
  assumes "method sc = Some m" "path sc = Some p" "query_string sc = Some q"
    and "m \<noteq> str_of ''HEAD''" "status_code self = 200" "direct_passthrough self"
    and "response self = \<lparr>has_aiter = True, py_len = Some (length xs), elems = map Inr xs\<rparr>"
  shows "asgi_call False self sc =
     Returned () (Start 200 (wsgi_headers self) # map (\<lambda>x. Body (Some x) (Some True)) xs)"
proof -
  from asgi_scope_to_environ_spec[OF assms(1-3)] obtain env where
    env: "asgi_scope_to_environ sc = Inr env" "env (str_of ''REQUEST_METHOD'') = Some (Str m)"
    by blast
  from assms(4-7) env(2) have "get_app_iter False self env = Inr (response self)"
    by (simp add: get_app_iter_def Let_def)
  then show ?thesis
    using env(1) assms(5,7) send_items_known[of 0 xs "length xs"]
    by (simp add: asgi_call_def get_wsgi_response_def run_response_def)
qed


text \<open>
  C1 fails on the code. The body of a response that is not passed through is wrapped in
  the generator \<^verbatim>\<open>aiter_encoded\<close>, of which \<^verbatim>\<open>len()\<close> raises: for a list of three chunks
  all three frames are tagged \<^verbatim>\<open>more_body\<close> and a fourth, empty frame ends the exchange.
  Where \<^verbatim>\<open>len()\<close> does give the count (a body passed through that has \<^verbatim>\<open>__len__\<close> and
  \<^verbatim>\<open>__aiter__\<close>, under \<^verbatim>\<open>-O\<close>), the test \<^verbatim>\<open>i < l\<close> at line 159 holds for the last chunk
  too, since \<open>i\<close> counts from 0: all three frames are tagged and no frame ends the
  exchange.
\<close>

theorem known_length_frames_all_tagged:
  "asgi_call True
     \<lparr>response = py_list [BytesItem (bytes_of ''aa''), BytesItem (bytes_of ''bb''),
        BytesItem (bytes_of ''cc'')],
      status_code = 200, encode = encode_latin1, direct_passthrough = False,
      wsgi_headers = []\<rparr>
     (plain_scope (str_of ''GET'')) =
     Returned ()
       [Start 200 [],
        Body (Some (BytesItem (bytes_of ''aa''))) (Some True),
        Body (Some (BytesItem (bytes_of ''bb''))) (Some True),
        Body (Some (BytesItem (bytes_of ''cc''))) (Some True),
        Body None None] \<and>
   asgi_call False
     \<lparr>response = \<lparr>has_aiter = True, py_len = Some 3,
        elems = [Inr (BytesItem (bytes_of ''aa'')), Inr (BytesItem (bytes_of ''bb'')),
          Inr (BytesItem (bytes_of ''cc''))]\<rparr>,
      status_code = 200, encode = encode_latin1, direct_passthrough = True,
      wsgi_headers = []\<rparr>
     (plain_scope (str_of ''GET'')) =
     Returned ()
       [Start 200 [],
        Body (Some (BytesItem (bytes_of ''aa''))) (Some True),
        Body (Some (BytesItem (bytes_of ''bb''))) (Some True),
        Body (Some (BytesItem (bytes_of ''cc''))) (Some True)]"
  by (simp add: response_eval plain_scope_def environ_eval)

text \<open>
  C3 fails on the code. For a response passed through whose body is a list (or any
  source without \<^verbatim>\<open>__aiter__\<close>, as an open file), \<^verbatim>\<open>get_app_iter\<close> raises \<^verbatim>\<open>NameError\<close> at
  line 130 before any frame is sent; under \<^verbatim>\<open>-O\<close> it returns the list, the start frame is
  sent and \<^verbatim>\<open>async for\<close> raises \<^verbatim>\<open>TypeError\<close>. No chunk is delivered either way. The path
  that does not pass through wraps such a body with \<^verbatim>\<open>_asyncify\<close> (lines 134-135).
\<close>

theorem passthrough_list_not_delivered:
  "asgi_call True
     \<lparr>response = py_list [BytesItem (bytes_of ''aa''), BytesItem (bytes_of ''bb'')],
      status_code = 200, encode = encode_latin1, direct_passthrough = True,
      wsgi_headers = []\<rparr>
     (plain_scope (str_of ''GET'')) = Raised NameError [] \<and>
   asgi_call False
     \<lparr>response = py_list [BytesItem (bytes_of ''aa''), BytesItem (bytes_of ''bb'')],
      status_code = 200, encode = encode_latin1, direct_passthrough = True,
      wsgi_headers = []\<rparr>
     (plain_scope (str_of ''GET'')) = Raised TypeError [Start 200 []]"
  by (simp add: response_eval plain_scope_def environ_eval)

end
